theory Spec2Isabelle
  imports Complex_Main "HOL-Library.Sublist"
begin

section \<open>Data model of the workflow executor\<close>

text \<open>
  The enums \<open>TaskStatus\<close> and \<open>TaskType\<close> (declared in workflow_engine.py and imported
  by workflow_executor.py from the ORM module) and the objects the executor works on.
  A task carries the ids of the tasks it depends on, one per \<open>TaskDependency\<close> row
  (\<open>dependency.dependency_task_id\<close>). The timestamps of a task, which \<open>_execute_task\<close>
  writes and nothing modelled here reads, and its parameters are left out.
\<close>

datatype TaskStatus = PENDING | RUNNING | COMPLETED | FAILED

datatype TaskType =
    PREPROCESS | EXTRACT_TEXT | ANALYZE_LAYOUT | UNDERSTAND_DOCUMENT
  | EXTRACT_FIELDS | EXTRACT_TABLES | VALIDATE_RESULTS | POSTPROCESS

text \<open>Python values that travel as task results and as returned payloads.\<close>

datatype pyval =
    PNone
  | PBool bool
  | PInt int
  | PNum real
  | PStr string
  | PList "pyval list"
  | PDict "(string \<times> pyval) list"

fun truthy :: "pyval \<Rightarrow> bool" where
  "truthy PNone = False"
| "truthy (PBool b) = b"
| "truthy (PInt i) = (i \<noteq> 0)"
| "truthy (PNum x) = (x \<noteq> 0)"
| "truthy (PStr s) = (s \<noteq> [])"
| "truthy (PList xs) = (xs \<noteq> [])"
| "truthy (PDict kvs) = (kvs \<noteq> [])"

record Task =
  task_id :: string
  task_type :: TaskType
  status :: TaskStatus
  dependencies :: "string list"
  result :: pyval
  error :: "string option"

text \<open>The exceptions the modelled code raises, with their argument.\<close>

datatype exec_error =
    ValueError string
  | KeyError string
  | ExecutorError string
  | RecursionDepth

fun str_of_error :: "exec_error \<Rightarrow> string" where
  "str_of_error (ValueError m) = m"
| "str_of_error (KeyError k) = [CHR 0x27] @ k @ [CHR 0x27]"
| "str_of_error (ExecutorError m) = m"
| "str_of_error RecursionDepth = ''maximum recursion depth exceeded''"

section \<open>Execution order: \<open>_get_execution_order\<close>\<close>

text \<open>
  \<open>tasks_by_id = {task.id: task for task in workflow.tasks}\<close>: a later task with the
  same id replaces the value, the key keeps its first position.
\<close>

definition tasks_by_id :: "Task list \<Rightarrow> (string \<rightharpoonup> Task)" where
  "tasks_by_id ts = map_of (rev (map (\<lambda>t. (task_id t, t)) ts))"

definition task_keys :: "Task list \<Rightarrow> string list" where
  "task_keys ts = rev (remdups (rev (map task_id ts)))"

text \<open>
  \<open>dependencies = {task.id: set() ...}\<close>, then every dependency id of every task is
  added to the set of its task. The set is iterated by \<open>visit\<close>; Python fixes no
  iteration order for a set of strings, the model iterates in the order of remdups.
  The lemmas on \<open>visit\<close> below are stated for any dictionary of lists.
\<close>

definition dependency_sets :: "Task list \<Rightarrow> (string \<rightharpoonup> string list)" where
  "dependency_sets ts k =
     (if k \<in> set (map task_id ts)
      then Some (remdups (concat (map dependencies (filter (\<lambda>t. task_id t = k) ts))))
      else None)"

record visit_state =
  visited :: "string set"
  temp_visited :: "string set"
  order :: "Task list"

definition circular_message :: string where
  "circular_message = ''Circular dependency detected in workflow tasks''"

text \<open>
  The nested function \<open>visit\<close> and its loop over \<open>dependencies[task_id]\<close>. The first
  argument bounds the depth of the recursion. \<open>get_execution_order\<close> starts with one
  more than the number of keys, which is never exhausted when the dependencies name
  tasks of the workflow (lemma \<open>visit_keys_total\<close> below): the recursion is as deep
  as the longest chain of dependencies at most. The limit the Python interpreter puts
  on the depth of its own stack is not modelled.
\<close>

fun visit :: "nat \<Rightarrow> (string \<rightharpoonup> string list) \<Rightarrow> (string \<rightharpoonup> Task) \<Rightarrow> string
                \<Rightarrow> visit_state \<Rightarrow> exec_error + visit_state"
and visit_deps :: "nat \<Rightarrow> (string \<rightharpoonup> string list) \<Rightarrow> (string \<rightharpoonup> Task) \<Rightarrow> string list
                \<Rightarrow> visit_state \<Rightarrow> exec_error + visit_state"
where
  "visit 0 deps tbi tid st = Inl RecursionDepth"
| "visit (Suc n) deps tbi tid st =
     (if tid \<in> temp_visited st then Inl (ValueError circular_message)
      else if tid \<in> visited st then Inr st
      else case deps tid of
             None \<Rightarrow> Inl (KeyError tid)
           | Some ds \<Rightarrow>
              (case visit_deps n deps tbi ds (st\<lparr>temp_visited := insert tid (temp_visited st)\<rparr>) of
                 Inl e \<Rightarrow> Inl e
               | Inr st' \<Rightarrow>
                  (case tbi tid of
                     None \<Rightarrow> Inl (KeyError tid)
                   | Some t \<Rightarrow>
                       Inr (st'\<lparr>temp_visited := temp_visited st' - {tid},
                                visited := insert tid (visited st'),
                                order := order st' @ [t]\<rparr>))))"
| "visit_deps n deps tbi [] st = Inr st"
| "visit_deps n deps tbi (d # ds) st =
     (case visit n deps tbi d st of
        Inl e \<Rightarrow> Inl e
      | Inr st' \<Rightarrow> visit_deps n deps tbi ds st')"

text \<open>\<open>for task_id in tasks_by_id: if task_id not in visited: visit(task_id)\<close>\<close>

fun visit_keys :: "nat \<Rightarrow> (string \<rightharpoonup> string list) \<Rightarrow> (string \<rightharpoonup> Task) \<Rightarrow> string list
                \<Rightarrow> visit_state \<Rightarrow> exec_error + visit_state" where
  "visit_keys n deps tbi [] st = Inr st"
| "visit_keys n deps tbi (k # ks) st =
     (if k \<notin> visited st
      then (case visit n deps tbi k st of
              Inl e \<Rightarrow> Inl e
            | Inr st' \<Rightarrow> visit_keys n deps tbi ks st')
      else visit_keys n deps tbi ks st)"

definition get_execution_order :: "Task list \<Rightarrow> exec_error + Task list" where
  "get_execution_order ts =
     (case visit_keys (Suc (length (task_keys ts))) (dependency_sets ts) (tasks_by_id ts)
             (task_keys ts) \<lparr>visited = {}, temp_visited = {}, order = []\<rparr> of
        Inl e \<Rightarrow> Inl e
      | Inr st \<Rightarrow> Inr (rev (order st)))"


text \<open>
  Predicates used to state properties of the order. \<open>deps_closed\<close> is the data model's
  requirement that a task depends only on tasks of its own workflow; \<open>depends_on\<close> is the
  dependency relation (dependent, dependency); a workflow has a cycle when some task
  reaches itself along it. \<open>deps_later\<close> says that in a list of ids every id is followed,
  strictly later, by all the ids it depends on.
\<close>

definition deps_closed :: "Task list \<Rightarrow> bool" where
  "deps_closed ts = list_all (\<lambda>t. list_all (\<lambda>d. d \<in> set (map task_id ts)) (dependencies t)) ts"

definition depends_on :: "Task list \<Rightarrow> (string \<times> string) set" where
  "depends_on ts = {(a, b). \<exists>t \<in> set ts. task_id t = a \<and> b \<in> set (dependencies t)}"

definition has_cycle :: "Task list \<Rightarrow> bool" where
  "has_cycle ts = (\<exists>a. (a, a) \<in> (depends_on ts)\<^sup>+)"

fun deps_later :: "(string \<rightharpoonup> string list) \<Rightarrow> string list \<Rightarrow> bool" where
  "deps_later deps [] = True"
| "deps_later deps (u # rest) =
     (u \<notin> set rest \<and> (case deps u of None \<Rightarrow> True | Some ds \<Rightarrow> set ds \<subseteq> set rest)
      \<and> deps_later deps rest)"

definition visit_inv :: "(string \<rightharpoonup> string list) \<Rightarrow> visit_state \<Rightarrow> bool" where
  "visit_inv deps st =
     (set (map task_id (order st)) = visited st
      \<and> deps_later deps (rev (map task_id (order st)))
      \<and> visited st \<inter> temp_visited st = {})"

definition tbi_ok :: "(string \<rightharpoonup> Task) \<Rightarrow> bool" where
  "tbi_ok tbi = (\<forall>k t. tbi k = Some t \<longrightarrow> task_id t = k)"

definition deps_dom_closed :: "(string \<rightharpoonup> string list) \<Rightarrow> bool" where
  "deps_dom_closed deps = (\<forall>k ds. deps k = Some ds \<longrightarrow> set ds \<subseteq> dom deps)"

definition ok_or_cycle :: "exec_error + 'a \<Rightarrow> bool" where
  "ok_or_cycle r = (case r of Inr _ \<Rightarrow> True | Inl e \<Rightarrow> e = ValueError circular_message)"

definition dep_len :: "string list \<Rightarrow> string \<Rightarrow> nat" where
  "dep_len xs u = length (dropWhile (\<lambda>x. x \<noteq> u) xs)"

section \<open>Running one task: \<open>_execute_task\<close>\<close>

definition find_task :: "Task list \<Rightarrow> string \<Rightarrow> Task option" where
  "find_task ts k = find (\<lambda>t. task_id t = k) ts"

definition update_task :: "string \<Rightarrow> (Task \<Rightarrow> Task) \<Rightarrow> Task list \<Rightarrow> Task list" where
  "update_task k f ts = map (\<lambda>t. if task_id t = k then f t else t) ts"

text \<open>Modelled from the spec: \<open>Task.can_execute\<close> is a method of the ORM class in
  app/models/workflow.py, which is not among the sources; only its call in
  \<open>_execute_task\<close> is. Section 4.1 of the specification gives its contract:
  \<open>CanRun()\<close> is true iff the status is Pending and every dependency task's status is
  Completed. The dependency task is the task the dependency row refers to.
\<close>

definition can_execute :: "Task list \<Rightarrow> Task \<Rightarrow> bool" where
  "can_execute ts t =
     (status t = PENDING \<and>
      list_all (\<lambda>d. case find_task ts d of None \<Rightarrow> False | Some dt \<Rightarrow> status dt = COMPLETED)
               (dependencies t))"

text \<open>
  \<open>_execute_task\<close> up to its \<open>await executor(task)\<close>: the guard on \<open>can_execute\<close>
  (a logged warning and a plain \<open>return\<close>), then the status becomes RUNNING. The
  boolean tells whether the executor is awaited. The first argument is the
  \<open>can_execute\<close> method.
\<close>

definition begin_task :: "(Task list \<Rightarrow> Task \<Rightarrow> bool) \<Rightarrow> Task list \<Rightarrow> string \<Rightarrow> bool \<times> Task list" where
  "begin_task can ts k =
     (case find_task ts k of
        None \<Rightarrow> (False, ts)
      | Some t \<Rightarrow>
          if \<not> can ts t then (False, ts)
          else (True, update_task k (\<lambda>t. t\<lparr>status := RUNNING\<rparr>) ts))"

text \<open>
  \<open>_execute_task\<close> from the return of the executor on: the result is stored and the
  status becomes COMPLETED, or the exception is recorded, the status becomes FAILED and
  the exception is raised again. The registry \<open>task_executors\<close> has an entry for each
  of the eight task types, so the lookup of the executor never fails. What the
  executor does is its outcome, an argument here.
\<close>

definition finish_task :: "Task list \<Rightarrow> string \<Rightarrow> exec_error + pyval \<Rightarrow> exec_error option \<times> Task list" where
  "finish_task ts k out =
     (case out of
        Inr r \<Rightarrow> (None, update_task k (\<lambda>t. t\<lparr>result := r, status := COMPLETED\<rparr>) ts)
      | Inl e \<Rightarrow> (Some e, update_task k (\<lambda>t. t\<lparr>status := FAILED, error := Some (str_of_error e)\<rparr>) ts))"

text \<open>The whole of \<open>_execute_task\<close>: the exception it raises, if any, and the tasks.\<close>

definition execute_task ::
  "(Task list \<Rightarrow> Task \<Rightarrow> bool) \<Rightarrow> Task list \<Rightarrow> string \<Rightarrow> exec_error + pyval \<Rightarrow> exec_error option \<times> Task list" where
  "execute_task can ts k out =
     (case begin_task can ts k of
        (False, ts') \<Rightarrow> (None, ts')
      | (True, ts') \<Rightarrow> finish_task ts' k out)"

section \<open>The coroutines of \<open>execute_workflow\<close>\<close>

text \<open>
  \<open>execute_workflow\<close> creates one coroutine \<open>_execute_task_with_semaphore\<close> per task of
  the order and awaits them with \<open>asyncio.gather\<close>. A coroutine waits for the
  semaphore, holds it, runs \<open>_execute_task\<close> (suspended while the executor runs), leaves
  the \<open>async with\<close> block, normally or with the exception, and is finished once the
  semaphore is released. The event loop interleaves the coroutines; an execution is a
  list of events, each one step of one coroutine. An event that names a coroutine
  which cannot take that step leaves the state as it is.
\<close>

datatype pc = Waiting | Holding | Executing | Exiting "exec_error option" | Finished "exec_error option"

record exec_state =
  sem :: nat
  tstate :: "Task list"
  pcs :: "string \<Rightarrow> pc"
  coros :: "string list"
  first_exc :: "exec_error option"

datatype event =
    Acquire string
  | Begin string
  | Finish string "exec_error + pyval"
  | Release string

fun exec_event :: "(Task list \<Rightarrow> Task \<Rightarrow> bool) \<Rightarrow> event \<Rightarrow> exec_state \<Rightarrow> exec_state" where
  "exec_event can (Acquire k) s =
     (if k \<in> set (coros s) \<and> pcs s k = Waiting \<and> 0 < sem s
      then s\<lparr>sem := sem s - 1, pcs := (pcs s)(k := Holding)\<rparr>
      else s)"
| "exec_event can (Begin k) s =
     (if k \<in> set (coros s) \<and> pcs s k = Holding
      then (case begin_task can (tstate s) k of
              (True, ts') \<Rightarrow> s\<lparr>tstate := ts', pcs := (pcs s)(k := Executing)\<rparr>
            | (False, ts') \<Rightarrow> s\<lparr>tstate := ts', pcs := (pcs s)(k := Exiting None)\<rparr>)
      else s)"
| "exec_event can (Finish k out) s =
     (if k \<in> set (coros s) \<and> pcs s k = Executing
      then (case finish_task (tstate s) k out of
              (x, ts') \<Rightarrow> s\<lparr>tstate := ts', pcs := (pcs s)(k := Exiting x)\<rparr>)
      else s)"
| "exec_event can (Release k) s =
     (case pcs s k of
        Exiting x \<Rightarrow>
          if k \<in> set (coros s)
          then s\<lparr>sem := sem s + 1, pcs := (pcs s)(k := Finished x),
                 first_exc := (case first_exc s of None \<Rightarrow> x | Some e \<Rightarrow> Some e)\<rparr>
          else s
      | _ \<Rightarrow> s)"

fun run_events :: "(Task list \<Rightarrow> Task \<Rightarrow> bool) \<Rightarrow> event list \<Rightarrow> exec_state \<Rightarrow> exec_state" where
  "run_events can [] s = s"
| "run_events can (e # es) s = run_events can es (exec_event can e s)"

definition init_exec :: "nat \<Rightarrow> Task list \<Rightarrow> Task list \<Rightarrow> exec_state" where
  "init_exec N ts ord =
     \<lparr>sem = N, tstate = ts, pcs = (\<lambda>_. Waiting), coros = map task_id ord, first_exc = None\<rparr>"

fun is_finished :: "pc \<Rightarrow> bool" where
  "is_finished (Finished x) = True"
| "is_finished _ = False"

text \<open>
  \<open>await asyncio.gather(*execution_tasks)\<close>: the first exception of a coroutine is
  raised in \<open>execute_workflow\<close>; without one, gather returns when every coroutine is
  finished; until then \<open>execute_workflow\<close> stays suspended.
\<close>

definition gather_result :: "exec_state \<Rightarrow> (exec_error + unit) option" where
  "gather_result s =
     (case first_exc s of
        Some e \<Rightarrow> Some (Inl e)
      | None \<Rightarrow> if list_all (\<lambda>k. is_finished (pcs s k)) (coros s) then Some (Inr ()) else None)"

definition running_count :: "Task list \<Rightarrow> nat" where
  "running_count ts = length (filter (\<lambda>t. status t = RUNNING) ts)"

section \<open>\<open>execute_workflow\<close> and \<open>_get_workflow_results\<close>\<close>

record Workflow =
  wf_id :: string
  document_id :: string
  wf_status :: TaskStatus
  wf_error :: "string option"
  created_at :: "string option"
  updated_at :: "string option"
  completed_at :: "string option"
  wf_tasks :: "Task list"

fun status_value :: "TaskStatus \<Rightarrow> string" where
  "status_value PENDING = ''pending''"
| "status_value RUNNING = ''running''"
| "status_value COMPLETED = ''completed''"
| "status_value FAILED = ''failed''"

definition opt_str :: "string option \<Rightarrow> pyval" where
  "opt_str x = (case x of None \<Rightarrow> PNone | Some s \<Rightarrow> PStr s)"

text \<open>Timestamps are kept as the text \<open>isoformat()\<close> gives.\<close>

definition get_workflow_results :: "Workflow \<Rightarrow> pyval" where
  "get_workflow_results w =
     (let summary = PDict [(''status'', PStr (status_value (wf_status w))),
                           (''error'', opt_str (wf_error w)),
                           (''completed_at'', opt_str (completed_at w))]
      in case find (\<lambda>t. task_type t = POSTPROCESS \<and> status t = COMPLETED) (wf_tasks w) of
           None \<Rightarrow> summary
         | Some p \<Rightarrow> if truthy (result p) then result p else summary)"

datatype outcome = Returned pyval | Raised exec_error | Awaiting

text \<open>
  \<open>execute_workflow\<close>. \<open>max_concurrency\<close> is the capacity of the semaphore, a natural
  number (\<open>asyncio.Semaphore\<close> accepts no negative value). \<open>now0\<close> and \<open>now1\<close> are the
  clock readings at the start and at the end, \<open>sched\<close> is the interleaving of the
  coroutines up to the moment \<open>gather\<close> hands control back. The result is what
  \<open>execute_workflow\<close> returns or raises and the store as committed.
\<close>

definition execute_workflow ::
  "(Task list \<Rightarrow> Task \<Rightarrow> bool) \<Rightarrow> nat \<Rightarrow> string \<Rightarrow> string \<Rightarrow> (string \<rightharpoonup> Workflow) \<Rightarrow> string
     \<Rightarrow> event list \<Rightarrow> outcome \<times> (string \<rightharpoonup> Workflow)" where
  "execute_workflow can max_concurrency now0 now1 db workflow_id sched =
     (case db workflow_id of
        None \<Rightarrow> (Raised (ValueError (''Workflow not found: '' @ workflow_id)), db)
      | Some w0 \<Rightarrow>
         (let w = w0\<lparr>wf_status := RUNNING, updated_at := Some now0\<rparr> in
          case get_execution_order (wf_tasks w) of
            Inl e \<Rightarrow>
              (Raised e,
               db(workflow_id \<mapsto> w\<lparr>wf_status := FAILED, wf_error := Some (str_of_error e),
                                      updated_at := Some now1\<rparr>))
          | Inr ord \<Rightarrow>
             (let s = run_events can sched (init_exec max_concurrency (wf_tasks w) ord);
                  w1 = w\<lparr>wf_tasks := tstate s\<rparr>
              in case gather_result s of
                   None \<Rightarrow> (Awaiting, db(workflow_id \<mapsto> w1))
                 | Some (Inl e) \<Rightarrow>
                     (Raised e,
                      db(workflow_id \<mapsto> w1\<lparr>wf_status := FAILED, wf_error := Some (str_of_error e),
                                              updated_at := Some now1\<rparr>))
                 | Some (Inr u) \<Rightarrow>
                     (let w2 = w1\<lparr>wf_status := COMPLETED, completed_at := Some now1\<rparr>
                      in (Returned (get_workflow_results w2), db(workflow_id \<mapsto> w2))))))"

section \<open>\<open>get_workflow_status\<close> of the workflow service\<close>

definition count_status :: "TaskStatus \<Rightarrow> Task list \<Rightarrow> int" where
  "count_status st ts = int (length (filter (\<lambda>t. status t = st) ts))"

text \<open>
  The payload for a workflow that is absent from the store has two entries. The
  handler \<open>except Exception\<close> of the source, which turns an exception of the query into
  a payload with status \<open>error\<close>, has no counterpart: no step of the model raises.
\<close>

definition get_workflow_status :: "(string \<rightharpoonup> Workflow) \<Rightarrow> string \<Rightarrow> pyval" where
  "get_workflow_status db workflow_id =
     (case db workflow_id of
        None \<Rightarrow> PDict [(''workflow_id'', PStr workflow_id), (''status'', PStr ''not_found'')]
      | Some w \<Rightarrow>
         (let total = int (length (wf_tasks w));
              completed = count_status COMPLETED (wf_tasks w);
              task_counts = PDict [(''total'', PInt total),
                                   (''pending'', PInt (count_status PENDING (wf_tasks w))),
                                   (''running'', PInt (count_status RUNNING (wf_tasks w))),
                                   (''completed'', PInt completed),
                                   (''failed'', PInt (count_status FAILED (wf_tasks w)))];
              progress = (if total > 0 then PNum (real_of_int completed / real_of_int total * 100)
                          else PInt 0)
          in PDict [(''workflow_id'', PStr workflow_id),
                    (''document_id'', PStr (document_id w)),
                    (''status'', PStr (status_value (wf_status w))),
                    (''created_at'', opt_str (created_at w)),
                    (''updated_at'', opt_str (updated_at w)),
                    (''completed_at'', opt_str (completed_at w)),
                    (''error'', opt_str (wf_error w)),
                    (''task_counts'', task_counts),
                    (''progress'', progress)]))"


section \<open>The validate-results stage\<close>

text \<open>
  The data the stage reads, with the types the source annotates: a field definition and
  a table definition (entries of the lists built by \<open>_get_fields_to_extract\<close> and
  \<open>_get_tables_to_extract\<close>), an entry of the field extraction result (its \<open>value\<close>, a
  \<open>str\<close> as the validators declare, and its \<open>confidence\<close>, each absent or given), an
  entry of the table extraction result, and the document understanding result. A \<open>str\<close>
  is the list of its bytes in UTF-8. Other keys of these dictionaries are read by no
  function modelled here.
\<close>

record field_def =
  fd_name :: string
  fd_type :: string
  fd_required :: bool

record table_def =
  td_name :: string
  td_required :: bool
  td_columns :: "(string \<times> string) list"

record field_entry =
  fe_value :: "string option"
  fe_confidence :: "real option"

record table_entry =
  te_rows :: pyval
  te_confidence :: "real option"

record table_hint =
  th_name :: "string option"
  th_columns :: "string list"

record understanding =
  document_type :: "string option"
  und_tables :: "table_hint list"

record validation_result =
  valid :: bool
  errors :: "string list"
  warnings :: "string list"

text \<open>\<open>understanding_result.get("document_type", "unknown")\<close>\<close>

definition get_document_type :: "understanding \<Rightarrow> string" where
  "get_document_type u = (case document_type u of None \<Rightarrow> ''unknown'' | Some d \<Rightarrow> d)"

text \<open>
  \<open>_get_fields_to_extract\<close> and \<open>_get_tables_to_extract\<close> as \<open>_validate_extraction_results\<close>
  calls them, without a template id: the lists depend on the document type only.
\<close>

definition mk_field :: "string \<Rightarrow> string \<Rightarrow> bool \<Rightarrow> field_def" where
  "mk_field n ty rq = \<lparr>fd_name = n, fd_type = ty, fd_required = rq\<rparr>"

definition get_fields_to_extract :: "understanding \<Rightarrow> field_def list" where
  "get_fields_to_extract u =
     (if get_document_type u = ''invoice'' then
        [mk_field ''invoice_number'' ''string'' True,
         mk_field ''date'' ''date'' True,
         mk_field ''due_date'' ''date'' False,
         mk_field ''total_amount'' ''currency'' True,
         mk_field ''tax_amount'' ''currency'' False,
         mk_field ''vendor_name'' ''string'' True,
         mk_field ''vendor_address'' ''string'' False,
         mk_field ''customer_name'' ''string'' True,
         mk_field ''customer_address'' ''string'' False]
      else if get_document_type u = ''receipt'' then
        [mk_field ''receipt_number'' ''string'' False,
         mk_field ''date'' ''date'' True,
         mk_field ''total_amount'' ''currency'' True,
         mk_field ''tax_amount'' ''currency'' False,
         mk_field ''merchant_name'' ''string'' True,
         mk_field ''merchant_address'' ''string'' False,
         mk_field ''payment_method'' ''string'' False]
      else if get_document_type u = ''contract'' then
        [mk_field ''contract_number'' ''string'' False,
         mk_field ''date'' ''date'' True,
         mk_field ''effective_date'' ''date'' False,
         mk_field ''expiration_date'' ''date'' False,
         mk_field ''party_1'' ''string'' True,
         mk_field ''party_2'' ''string'' True,
         mk_field ''contract_type'' ''string'' False,
         mk_field ''contract_value'' ''currency'' False]
      else
        [mk_field ''title'' ''string'' False,
         mk_field ''date'' ''date'' False,
         mk_field ''author'' ''string'' False])"

text \<open>\<open>f"table_{i}"\<close> needs the decimal digits of a natural number.\<close>

definition digit_char :: "nat \<Rightarrow> char" where
  "digit_char d = ''0123456789'' ! d"

function str_nat :: "nat \<Rightarrow> string" where
  "str_nat n = (if n < 10 then [digit_char n] else str_nat (n div 10) @ [digit_char (n mod 10)])"
  by pat_completeness auto
termination
  by (relation "measure id") auto

fun hinted_tables :: "nat \<Rightarrow> table_hint list \<Rightarrow> table_def list" where
  "hinted_tables i [] = []"
| "hinted_tables i (h # hs) =
     \<lparr>td_name = (case th_name h of None \<Rightarrow> ''table_'' @ str_nat i | Some n \<Rightarrow> n),
      td_required = False,
      td_columns = map (\<lambda>c. (c, ''string'')) (th_columns h)\<rparr> # hinted_tables (Suc i) hs"

definition get_tables_to_extract :: "understanding \<Rightarrow> table_def list" where
  "get_tables_to_extract u =
     (if get_document_type u = ''invoice'' then
        [\<lparr>td_name = ''line_items'', td_required = True,
          td_columns = [(''description'', ''string''), (''quantity'', ''number''),
                        (''unit_price'', ''currency''), (''total'', ''currency'')]\<rparr>]
      else if get_document_type u = ''receipt'' then
        [\<lparr>td_name = ''items'', td_required = True,
          td_columns = [(''description'', ''string''), (''quantity'', ''number''),
                        (''price'', ''currency'')]\<rparr>]
      else hinted_tables 0 (und_tables u))"

text \<open>
  The validators. \<open>re.fullmatch\<close> on the fixed patterns of the source is written out:
  in a shape the letter d stands for \<open>\d\<close> and every other character for itself;
  \<open>is_amount\<close> is \<open>\d+(\.\d{2})?\<close>; the currency patterns put a symbol before the
  amount or a code after it, with \<open>\s*\<close> between. The classes \<open>\d\<close> and \<open>\s\<close> are the
  ASCII ones. The builtin \<open>float\<close> is not part of the repository: whether it accepts a
  string is the argument \<open>float_ok\<close>.
\<close>

definition is_digit :: "char \<Rightarrow> bool" where
  "is_digit c = (c \<in> set ''0123456789'')"

definition is_space :: "char \<Rightarrow> bool" where
  "is_space c = (c \<in> set [CHR '' '', CHR 0x09, CHR 0x0A, CHR 0x0B, CHR 0x0C, CHR 0x0D])"

fun shape_match :: "string \<Rightarrow> string \<Rightarrow> bool" where
  "shape_match [] [] = True"
| "shape_match (p # ps) (c # cs) =
     ((if p = CHR ''d'' then is_digit c else c = p) \<and> shape_match ps cs)"
| "shape_match _ _ = False"

definition is_valid_date :: "string \<Rightarrow> bool" where
  "is_valid_date v =
     list_ex (\<lambda>p. shape_match p v) [''dddd-dd-dd'', ''dd/dd/dddd'', ''dd-dd-dddd'', ''dd.dd.dddd'']"

definition is_amount :: "string \<Rightarrow> bool" where
  "is_amount s =
     (let ds = takeWhile is_digit s; r = dropWhile is_digit s
      in ds \<noteq> [] \<and> (r = [] \<or> shape_match ''.dd'' r))"

definition amount_after :: "string \<Rightarrow> string \<Rightarrow> bool" where
  "amount_after symbol s = (take (length symbol) s = symbol \<and> is_amount (drop (length symbol) s))"

definition amount_before :: "string \<Rightarrow> string \<Rightarrow> bool" where
  "amount_before code s =
     (length code \<le> length s \<and> drop (length s - length code) s = code \<and>
      is_amount (rev (dropWhile is_space (rev (take (length s - length code) s)))))"

definition is_valid_currency :: "string \<Rightarrow> bool" where
  "is_valid_currency v =
     (amount_after ''$'' v \<or> amount_before ''USD'' v
      \<or> amount_after [CHR 0xE2, CHR 0x82, CHR 0xAC] v \<or> amount_before ''EUR'' v
      \<or> amount_after [CHR 0xC2, CHR 0xA3] v \<or> amount_before ''GBP'' v
      \<or> is_amount v)"

definition is_valid_number :: "(string \<Rightarrow> bool) \<Rightarrow> string \<Rightarrow> bool" where
  "is_valid_number float_ok v = float_ok (filter (\<lambda>c. c \<noteq> CHR '','') v)"

text \<open>
  \<open>_validate_extraction_results\<close>: three loops over the definitions, the first two
  record required fields and tables that are missing or empty as errors and clear
  \<open>valid\<close>, the third records malformed values as warnings.
\<close>

definition quoted :: "string \<Rightarrow> string" where
  "quoted n = [CHR 0x27] @ n @ [CHR 0x27]"

definition field_present :: "(string \<times> field_entry) list \<Rightarrow> string \<Rightarrow> bool" where
  "field_present fr n =
     (case map_of fr n of
        None \<Rightarrow> False
      | Some e \<Rightarrow> (case fe_value e of None \<Rightarrow> False | Some v \<Rightarrow> v \<noteq> []))"

definition table_present :: "(string \<times> table_entry) list \<Rightarrow> string \<Rightarrow> bool" where
  "table_present tr n =
     (case map_of tr n of None \<Rightarrow> False | Some e \<Rightarrow> truthy (te_rows e))"

fun check_required_fields ::
  "(string \<times> field_entry) list \<Rightarrow> field_def list \<Rightarrow> validation_result \<Rightarrow> validation_result" where
  "check_required_fields fr [] v = v"
| "check_required_fields fr (fd # fds) v =
     check_required_fields fr fds
       (if fd_required fd \<and> \<not> field_present fr (fd_name fd)
        then v\<lparr>valid := False,
               errors := errors v @ [''Required field '' @ quoted (fd_name fd) @ '' is missing or empty'']\<rparr>
        else v)"

fun check_required_tables ::
  "(string \<times> table_entry) list \<Rightarrow> table_def list \<Rightarrow> validation_result \<Rightarrow> validation_result" where
  "check_required_tables tr [] v = v"
| "check_required_tables tr (td # tds) v =
     check_required_tables tr tds
       (if td_required td \<and> \<not> table_present tr (td_name td)
        then v\<lparr>valid := False,
               errors := errors v @ [''Required table '' @ quoted (td_name td) @ '' is missing or empty'']\<rparr>
        else v)"

definition type_warning :: "(string \<Rightarrow> bool) \<Rightarrow> field_def \<Rightarrow> string \<Rightarrow> string option" where
  "type_warning float_ok fd v =
     (if fd_type fd = ''date'' \<and> \<not> is_valid_date v
      then Some (''Field '' @ quoted (fd_name fd) @ '' has invalid date format: '' @ v)
      else if fd_type fd = ''currency'' \<and> \<not> is_valid_currency v
      then Some (''Field '' @ quoted (fd_name fd) @ '' has invalid currency format: '' @ v)
      else if fd_type fd = ''number'' \<and> \<not> is_valid_number float_ok v
      then Some (''Field '' @ quoted (fd_name fd) @ '' has invalid number format: '' @ v)
      else None)"

fun check_field_types ::
  "(string \<Rightarrow> bool) \<Rightarrow> (string \<times> field_entry) list \<Rightarrow> field_def list \<Rightarrow> validation_result
     \<Rightarrow> validation_result" where
  "check_field_types float_ok fr [] v = v"
| "check_field_types float_ok fr (fd # fds) v =
     check_field_types float_ok fr fds
       (case map_of fr (fd_name fd) of
          None \<Rightarrow> v
        | Some e \<Rightarrow>
           (case fe_value e of
              None \<Rightarrow> v
            | Some val \<Rightarrow>
               if val = [] then v
               else (case type_warning float_ok fd val of
                       None \<Rightarrow> v
                     | Some w \<Rightarrow> v\<lparr>warnings := warnings v @ [w]\<rparr>)))"

definition validate_extraction_results ::
  "(string \<Rightarrow> bool) \<Rightarrow> (string \<times> field_entry) list \<Rightarrow> (string \<times> table_entry) list
     \<Rightarrow> understanding \<Rightarrow> validation_result" where
  "validate_extraction_results float_ok fields_result tables_result understanding_result =
     (let v0 = \<lparr>valid = True, errors = [], warnings = []\<rparr>;
          fields_to_extract = get_fields_to_extract understanding_result;
          v1 = check_required_fields fields_result fields_to_extract v0;
          v2 = check_required_tables tables_result (get_tables_to_extract understanding_result) v1
      in check_field_types float_ok fields_result fields_to_extract v2)"







section \<open>Invariants of the coroutine states\<close>

text \<open>
  The predicates below are used in the proofs: which coroutines hold the semaphore,
  that the free permits and the holders add up to the capacity, that a Running task is
  one whose coroutine awaits its executor and conversely, that a Failed task is one
  whose coroutine has raised, that a task which has left Pending has all its
  dependencies Completed, and the status changes the state machine of a task allows.
\<close>

fun holds_sem :: "pc \<Rightarrow> bool" where
  "holds_sem Holding = True"
| "holds_sem Executing = True"
| "holds_sem (Exiting x) = True"
| "holds_sem Waiting = False"
| "holds_sem (Finished x) = False"

definition holders :: "exec_state \<Rightarrow> nat" where
  "holders s = length (filter (\<lambda>k. holds_sem (pcs s k)) (coros s))"

definition sem_inv :: "nat \<Rightarrow> exec_state \<Rightarrow> bool" where
  "sem_inv N s = (distinct (coros s) \<and> sem s + holders s = N)"

definition running_inv :: "exec_state \<Rightarrow> bool" where
  "running_inv s =
     (\<forall>t \<in> set (tstate s). status t = RUNNING \<longrightarrow>
        task_id t \<in> set (coros s) \<and> pcs s (task_id t) = Executing)"

definition exec_inv :: "exec_state \<Rightarrow> bool" where
  "exec_inv s =
     (\<forall>k. pcs s k = Executing \<longrightarrow>
        (\<exists>t \<in> set (tstate s). task_id t = k) \<and>
        (\<forall>t \<in> set (tstate s). task_id t = k \<longrightarrow> status t = RUNNING))"

fun raised :: "pc \<Rightarrow> bool" where
  "raised (Exiting (Some e)) = True"
| "raised (Finished (Some e)) = True"
| "raised _ = False"

definition failed_inv :: "exec_state \<Rightarrow> bool" where
  "failed_inv s =
     ((\<forall>t \<in> set (tstate s). status t = FAILED \<longrightarrow> raised (pcs s (task_id t)))
      \<and> (\<forall>k. raised (pcs s k) \<longrightarrow> (\<exists>t \<in> set (tstate s). task_id t = k \<and> status t = FAILED))
      \<and> (\<forall>k e. k \<in> set (coros s) \<and> pcs s k = Finished (Some e) \<longrightarrow> first_exc s \<noteq> None)
      \<and> (first_exc s \<noteq> None \<longrightarrow> (\<exists>k. raised (pcs s k))))"

definition deps_done_inv :: "exec_state \<Rightarrow> bool" where
  "deps_done_inv s =
     (\<forall>t \<in> set (tstate s). status t \<noteq> PENDING \<longrightarrow>
        (\<forall>d \<in> set (dependencies t). \<exists>dt. find_task (tstate s) d = Some dt \<and> status dt = COMPLETED))"

definition legal_step :: "TaskStatus \<Rightarrow> TaskStatus \<Rightarrow> bool" where
  "legal_step a b =
     (a = b \<or> (a = PENDING \<and> b = RUNNING) \<or> (a = RUNNING \<and> b = COMPLETED)
      \<or> (a = RUNNING \<and> b = FAILED))"

section \<open>Sample workflows\<close>

text \<open>Concrete tasks, workflows, states and schedules on which the theorems are instantiated.\<close>

abbreviation (input) ex_pre :: Task where
  "ex_pre \<equiv> \<lparr>task_id = ''wf_preprocess'', task_type = PREPROCESS, status = PENDING,
              dependencies = [], result = PNone, error = None\<rparr>"

abbreviation (input) ex_ext :: Task where
  "ex_ext \<equiv> \<lparr>task_id = ''wf_extract_text'', task_type = EXTRACT_TEXT, status = PENDING,
              dependencies = [''wf_preprocess''], result = PNone, error = None\<rparr>"


abbreviation (input) ex_wf :: "Task list \<Rightarrow> Workflow" where
  "ex_wf ts \<equiv> \<lparr>wf_id = ''wf'', document_id = ''doc'', wf_status = PENDING, wf_error = None,
       created_at = None, updated_at = None, completed_at = None, wf_tasks = ts\<rparr>"

abbreviation (input) ex_fail_sched :: "event list" where
  "ex_fail_sched \<equiv> [Acquire ''wf_extract_text'', Begin ''wf_extract_text'', Release ''wf_extract_text'',
      Acquire ''wf_preprocess'', Begin ''wf_preprocess'',
      Finish ''wf_preprocess'' (Inl (ExecutorError ''boom'')), Release ''wf_preprocess'']"


abbreviation (input) ex_state :: exec_state where
  "ex_state \<equiv> \<lparr>sem = 3, tstate = [ex_pre\<lparr>status := COMPLETED\<rparr>, ex_ext],
                pcs = (\<lambda>_. Waiting)(''wf_extract_text'' := Holding),
                coros = [''wf_extract_text'', ''wf_preprocess''], first_exc = None\<rparr>"


abbreviation (input) ex_fields :: "(string \<times> field_entry) list" where
  "ex_fields \<equiv> [(''date'', \<lparr>fe_value = Some ''10 May 2023'', fe_confidence = None\<rparr>)]"

abbreviation (input) ex_tables :: "(string \<times> table_entry) list" where
  "ex_tables \<equiv> [(''line_items'', \<lparr>te_rows = PList [PList [PStr ''Widget'', PStr ''2'']], te_confidence = None\<rparr>)]"

abbreviation (input) ex_invoice :: understanding where
  "ex_invoice \<equiv> \<lparr>document_type = Some ''invoice'', und_tables = []\<rparr>"

section \<open>Properties of the execution order\<close>

text \<open>
  A successful \<open>visit\<close> leaves \<open>temp_visited\<close> as it found it: the id is added on
  entry and removed before the return.
\<close>

lemma visit_temp:
  "(visit n deps tbi tid st = Inr st' \<longrightarrow> temp_visited st' = temp_visited st)"
  "(visit_deps n deps tbi ds st = Inr st' \<longrightarrow> temp_visited st' = temp_visited st)"
proof (induction n deps tbi tid st and n deps tbi ds st arbitrary: st' and st'
       rule: visit_visit_deps.induct)
  case (1 deps tbi tid st)
  then show ?case by simp
next
  case (2 n deps tbi tid st)
  show ?case
  proof (intro impI)
    assume run: "visit (Suc n) deps tbi tid st = Inr st'"
    have nt: "tid \<notin> temp_visited st" using run by (simp split: if_splits)
    show "temp_visited st' = temp_visited st"
    proof (cases "tid \<in> visited st")
      case True
      with run nt show ?thesis by simp
    next
      case False
      with run nt obtain ds st1 t where
        d: "deps tid = Some ds" and
        r1: "visit_deps n deps tbi ds (st\<lparr>temp_visited := insert tid (temp_visited st)\<rparr>) = Inr st1" and
        t: "tbi tid = Some t" and
        st': "st' = st1\<lparr>temp_visited := temp_visited st1 - {tid},
                                visited := insert tid (visited st1),
                                order := order st1 @ [t]\<rparr>"
        by (simp split: option.splits sum.splits)
      from "2.IH"[OF nt False d] r1 have "temp_visited st1 = insert tid (temp_visited st)" by simp
      then show ?thesis using nt unfolding st' by simp
    qed
  qed
next
  case (3 n deps tbi st)
  then show ?case by simp
next
  case (4 n deps tbi d ds st)
  show ?case
  proof (intro impI)
    assume run: "visit_deps n deps tbi (d # ds) st = Inr st'"
    from run obtain st1 where r1: "visit n deps tbi d st = Inr st1"
      and r2: "visit_deps n deps tbi ds st1 = Inr st'"
      by (simp split: sum.splits)
    from "4.IH"(1) r1 have "temp_visited st1 = temp_visited st" by simp
    moreover from "4.IH"(2)[OF r1] r2 have "temp_visited st' = temp_visited st1" by simp
    ultimately show "temp_visited st' = temp_visited st" by simp
  qed
qed


lemma visit_inv_push:
  assumes i1: "visit_inv deps st1" and tmp: "tid \<in> temp_visited st1"
    and dsv: "set ds \<subseteq> visited st1" and d: "deps tid = Some ds" and tt: "task_id t = tid"
  shows "visit_inv deps (st1\<lparr>temp_visited := temp_visited st1 - {tid},
                                visited := insert tid (visited st1),
                                order := order st1 @ [t]\<rparr>)"
proof -
  have a: "set (map task_id (order st1)) = visited st1"
    and b: "deps_later deps (rev (map task_id (order st1)))"
    and c: "visited st1 \<inter> temp_visited st1 = {}"
    using i1 by (simp_all add: visit_inv_def)
  have tidn: "tid \<notin> visited st1" using c tmp by blast
  have 1: "set (map task_id (order st1 @ [t])) = insert tid (visited st1)"
    using a tt by simp
  have 2: "deps_later deps (rev (map task_id (order st1 @ [t])))"
    using a b tidn dsv d tt by simp
  have 3: "insert tid (visited st1) \<inter> (temp_visited st1 - {tid}) = {}"
    using c by blast
  show ?thesis unfolding visit_inv_def using 1 2 3 by simp
qed

lemma visit_partial:
  "(visit n deps tbi tid st = Inr st' \<longrightarrow> tbi_ok tbi \<longrightarrow> visit_inv deps st \<longrightarrow>
      visit_inv deps st' \<and> visited st \<subseteq> visited st' \<and> tid \<in> visited st')"
  "(visit_deps n deps tbi ds st = Inr st' \<longrightarrow> tbi_ok tbi \<longrightarrow> visit_inv deps st \<longrightarrow>
      visit_inv deps st' \<and> visited st \<subseteq> visited st' \<and> set ds \<subseteq> visited st')"
proof (induction n deps tbi tid st and n deps tbi ds st arbitrary: st' and st'
       rule: visit_visit_deps.induct)
  case (1 deps tbi tid st)
  then show ?case by simp
next
  case (2 n deps tbi tid st)
  show ?case
  proof (intro impI)
    assume run: "visit (Suc n) deps tbi tid st = Inr st'" and ok: "tbi_ok tbi"
       and inv: "visit_inv deps st"
    have nt: "tid \<notin> temp_visited st" using run by (simp split: if_splits)
    show "visit_inv deps st' \<and> visited st \<subseteq> visited st' \<and> tid \<in> visited st'"
    proof (cases "tid \<in> visited st")
      case True
      with run nt inv show ?thesis by simp
    next
      case False
      with run nt obtain ds st1 t where
        d: "deps tid = Some ds" and
        r1: "visit_deps n deps tbi ds (st\<lparr>temp_visited := insert tid (temp_visited st)\<rparr>) = Inr st1" and
        t: "tbi tid = Some t" and
        st': "st' = st1\<lparr>temp_visited := temp_visited st1 - {tid},
                                visited := insert tid (visited st1),
                                order := order st1 @ [t]\<rparr>"
        by (simp split: option.splits sum.splits)
      let ?st0 = "st\<lparr>temp_visited := insert tid (temp_visited st)\<rparr>"
      have inv0: "visit_inv deps ?st0" using inv False by (simp add: visit_inv_def)
      from "2.IH"[OF nt False d] r1 ok inv0
      have i1: "visit_inv deps st1" and sub: "visited st \<subseteq> visited st1"
        and dsv: "set ds \<subseteq> visited st1" by simp_all
      have tmp1: "temp_visited st1 = insert tid (temp_visited st)"
        using visit_temp(2) r1 by fastforce
      have tt: "task_id t = tid" using ok t by (simp add: tbi_ok_def)
      have "visit_inv deps st'" unfolding st'
        by (rule visit_inv_push[OF i1 _ dsv d tt]) (simp add: tmp1)
      moreover have "visited st \<subseteq> visited st'" using sub unfolding st' by auto
      moreover have "tid \<in> visited st'" unfolding st' by simp
      ultimately show ?thesis by simp
    qed
  qed
next
  case (3 n deps tbi st)
  then show ?case by simp
next
  case (4 n deps tbi d ds st)
  show ?case
  proof (intro impI)
    assume run: "visit_deps n deps tbi (d # ds) st = Inr st'" and ok: "tbi_ok tbi"
       and inv: "visit_inv deps st"
    from run obtain st1 where r1: "visit n deps tbi d st = Inr st1"
      and r2: "visit_deps n deps tbi ds st1 = Inr st'"
      by (simp split: sum.splits)
    from "4.IH"(1) r1 ok inv have a: "visit_inv deps st1" "visited st \<subseteq> visited st1" "d \<in> visited st1"
      by simp_all
    from "4.IH"(2)[OF r1] r2 ok a(1) have b: "visit_inv deps st'" "visited st1 \<subseteq> visited st'" "set ds \<subseteq> visited st'"
      by simp_all
    show "visit_inv deps st' \<and> visited st \<subseteq> visited st' \<and> set (d # ds) \<subseteq> visited st'"
      using a b by auto
  qed
qed


lemma ok_or_cycle_simps:
  "ok_or_cycle (Inr x)" "ok_or_cycle (Inl e) = (e = ValueError circular_message)"
  by (simp_all add: ok_or_cycle_def)

lemma card_diff_insert_less:
  assumes "finite D" "tid \<in> D" "tid \<notin> T" "card (D - T) < Suc n"
  shows "card (D - insert tid T) < n"
proof -
  have "tid \<in> D - T" using assms by simp
  moreover have "D - insert tid T = (D - T) - {tid}" by blast
  moreover have "finite (D - T)" using assms by simp
  ultimately have "card (D - insert tid T) = card (D - T) - 1 \<and> card (D - T) > 0"
    by (metis card_Diff_singleton card_gt_0_iff empty_iff)
  then show ?thesis using assms(4) by linarith
qed

lemma visit_total:
  "(finite (dom deps) \<longrightarrow> deps_dom_closed deps \<longrightarrow> dom tbi = dom deps \<longrightarrow>
    tid \<in> dom deps \<longrightarrow> temp_visited st \<subseteq> dom deps \<longrightarrow>
    card (dom deps - temp_visited st) < n \<longrightarrow> ok_or_cycle (visit n deps tbi tid st))"
  "(finite (dom deps) \<longrightarrow> deps_dom_closed deps \<longrightarrow> dom tbi = dom deps \<longrightarrow>
    set ds \<subseteq> dom deps \<longrightarrow> temp_visited st \<subseteq> dom deps \<longrightarrow>
    card (dom deps - temp_visited st) < n \<longrightarrow> ok_or_cycle (visit_deps n deps tbi ds st))"
proof (induction n deps tbi tid st and n deps tbi ds st
       rule: visit_visit_deps.induct)
  case (1 deps tbi tid st)
  then show ?case by simp
next
  case (2 n deps tbi tid st)
  show ?case
  proof (intro impI)
    assume fin: "finite (dom deps)" and cl: "deps_dom_closed deps" and dm: "dom tbi = dom deps"
      and tid: "tid \<in> dom deps" and tmp: "temp_visited st \<subseteq> dom deps"
      and c: "card (dom deps - temp_visited st) < Suc n"
    show "ok_or_cycle (visit (Suc n) deps tbi tid st)"
    proof (cases "tid \<in> temp_visited st")
      case True
      then show ?thesis by (simp add: ok_or_cycle_simps)
    next
      case nt: False
      show ?thesis
      proof (cases "tid \<in> visited st")
        case True
        with nt show ?thesis by (simp add: ok_or_cycle_simps)
      next
        case nv: False
        from tid obtain ds where d: "deps tid = Some ds" by blast
        from tid dm obtain t where t: "tbi tid = Some t" by blast
        let ?st0 = "st\<lparr>temp_visited := insert tid (temp_visited st)\<rparr>"
        have dsd: "set ds \<subseteq> dom deps" using cl d by (simp add: deps_dom_closed_def)
        have tmp0: "temp_visited ?st0 \<subseteq> dom deps" using tmp tid by simp
        have c0: "card (dom deps - temp_visited ?st0) < n"
          using card_diff_insert_less[OF fin tid nt c] by simp
        from "2.IH"[OF nt nv d] fin cl dm dsd tmp0 c0
        have r: "ok_or_cycle (visit_deps n deps tbi ds ?st0)" by blast
        show ?thesis
        proof (cases "visit_deps n deps tbi ds ?st0")
          case (Inl e)
          with r nt nv d show ?thesis by (simp add: ok_or_cycle_simps)
        next
          case (Inr st1)
          with nt nv d t show ?thesis by (simp add: ok_or_cycle_simps)
        qed
      qed
    qed
  qed
next
  case (3 n deps tbi st)
  then show ?case by (simp add: ok_or_cycle_simps)
next
  case (4 n deps tbi d ds st)
  show ?case
  proof (intro impI)
    assume fin: "finite (dom deps)" and cl: "deps_dom_closed deps" and dm: "dom tbi = dom deps"
      and dsd: "set (d # ds) \<subseteq> dom deps" and tmp: "temp_visited st \<subseteq> dom deps"
      and c: "card (dom deps - temp_visited st) < n"
    have r1: "ok_or_cycle (visit n deps tbi d st)"
      using "4.IH"(1) fin cl dm dsd tmp c by simp
    show "ok_or_cycle (visit_deps n deps tbi (d # ds) st)"
    proof (cases "visit n deps tbi d st")
      case (Inl e)
      with r1 show ?thesis by (simp add: ok_or_cycle_simps)
    next
      case (Inr st1)
      have tmp1: "temp_visited st1 = temp_visited st" using visit_temp(1) Inr by blast
      have "ok_or_cycle (visit_deps n deps tbi ds st1)"
        using "4.IH"(2)[OF Inr] fin cl dm dsd tmp c tmp1 by simp
      with Inr show ?thesis by simp
    qed
  qed
qed

lemma visit_keys_total:
  assumes "finite (dom deps)" "deps_dom_closed deps" "dom tbi = dom deps"
    and "set ks \<subseteq> dom deps" "temp_visited st = {}" "card (dom deps) < n"
  shows "ok_or_cycle (visit_keys n deps tbi ks st)"
  using assms(4,5)
proof (induction ks arbitrary: st)
  case Nil
  then show ?case by (simp add: ok_or_cycle_simps)
next
  case (Cons k ks)
  have r1: "ok_or_cycle (visit n deps tbi k st)"
    using visit_total(1)[of deps tbi k st n] assms(1,2,3,6) Cons.prems by simp
  show ?case
  proof (cases "k \<in> visited st")
    case True
    then show ?thesis using Cons by simp
  next
    case False
    show ?thesis
    proof (cases "visit n deps tbi k st")
      case (Inl e)
      with r1 False show ?thesis by (simp add: ok_or_cycle_simps)
    next
      case (Inr st1)
      have "temp_visited st1 = {}" using visit_temp(1) Inr Cons.prems(2) by fastforce
      then have "ok_or_cycle (visit_keys n deps tbi ks st1)"
        using Cons.IH Cons.prems(1) by simp
      with Inr False show ?thesis by simp
    qed
  qed
qed

lemma visit_keys_partial:
  assumes "tbi_ok tbi"
  shows "visit_keys n deps tbi ks st = Inr st' \<Longrightarrow> visit_inv deps st \<Longrightarrow>
         visit_inv deps st' \<and> visited st \<subseteq> visited st' \<and> set ks \<subseteq> visited st'"
proof (induction ks arbitrary: st)
  case Nil
  then show ?case by simp
next
  case (Cons k ks)
  show ?case
  proof (cases "k \<in> visited st")
    case True
    with Cons.prems have "visit_keys n deps tbi ks st = Inr st'" by simp
    from Cons.IH[OF this Cons.prems(2)] True show ?thesis by auto
  next
    case False
    with Cons.prems(1) obtain st1 where r1: "visit n deps tbi k st = Inr st1"
      and r2: "visit_keys n deps tbi ks st1 = Inr st'"
      by (simp split: sum.splits)
    from visit_partial(1)[of n deps tbi k st st1] r1 assms Cons.prems(2)
    have a: "visit_inv deps st1" "visited st \<subseteq> visited st1" "k \<in> visited st1" by simp_all
    from Cons.IH[OF r2 a(1)] a show ?thesis by auto
  qed
qed

lemma deps_later_edge:
  "deps_later deps xs \<Longrightarrow> a \<in> set xs \<Longrightarrow> deps a = Some ds \<Longrightarrow> b \<in> set ds \<Longrightarrow>
     b \<in> set xs \<and> dep_len xs b < dep_len xs a"
proof (induction xs)
  case Nil
  then show ?case by simp
next
  case (Cons u rest)
  show ?case
  proof (cases "a = u")
    case True
    with Cons.prems have br: "b \<in> set rest" and un: "u \<notin> set rest" by auto
    then have "b \<noteq> u" by blast
    moreover have "length (dropWhile (\<lambda>x. x \<noteq> b) rest) \<le> length rest"
      by (rule length_dropWhile_le)
    ultimately show ?thesis using True br by (simp add: dep_len_def)
  next
    case False
    with Cons.prems have ar: "a \<in> set rest" and dl: "deps_later deps rest"
      and un: "u \<notin> set rest" by auto
    from Cons.IH[OF dl ar Cons.prems(3,4)]
    have br: "b \<in> set rest" and lt: "dep_len rest b < dep_len rest a" by simp_all
    have "b \<noteq> u" using br un by blast
    then show ?thesis using False br lt by (simp add: dep_len_def)
  qed
qed

lemma deps_later_acyclic:
  assumes "deps_later deps xs" "dom deps \<subseteq> set xs"
  shows "acyclic {(a, b). \<exists>ds. deps a = Some ds \<and> b \<in> set ds}"
proof (rule acyclicI_order[where f = "dep_len xs"])
  fix a b assume "(a, b) \<in> {(a, b). \<exists>ds. deps a = Some ds \<and> b \<in> set ds}"
  then obtain ds where d: "deps a = Some ds" and b: "b \<in> set ds" by blast
  then have "a \<in> set xs" using assms(2) by blast
  from deps_later_edge[OF assms(1) this d b] show "dep_len xs b < dep_len xs a" by simp
qed


lemma dom_dependency_sets: "dom (dependency_sets ts) = set (map task_id ts)"
  by (auto simp: dependency_sets_def dom_def)

lemma dom_tasks_by_id: "dom (tasks_by_id ts) = set (map task_id ts)"
  by (simp add: tasks_by_id_def dom_map_of_conv_image_fst image_image)

lemma set_task_keys: "set (task_keys ts) = set (map task_id ts)"
  by (simp add: task_keys_def)

lemma tbi_ok_tasks_by_id: "tbi_ok (tasks_by_id ts)"
  unfolding tbi_ok_def tasks_by_id_def
proof (intro allI impI)
  fix k t assume "map_of (rev (map (\<lambda>t. (task_id t, t)) ts)) k = Some t"
  then have "(k, t) \<in> set (rev (map (\<lambda>t. (task_id t, t)) ts))" by (rule map_of_SomeD)
  then show "task_id t = k" by auto
qed

lemma dependency_sets_Some:
  "dependency_sets ts a = Some ds \<Longrightarrow> b \<in> set ds \<longleftrightarrow> (\<exists>t \<in> set ts. task_id t = a \<and> b \<in> set (dependencies t))"
  unfolding dependency_sets_def
  by (auto split: if_splits)
lemma dependency_sets_None:
  "dependency_sets ts a = None \<Longrightarrow> \<not> (\<exists>t \<in> set ts. task_id t = a)"
  unfolding dependency_sets_def
  by (auto split: if_splits)
lemma dependency_sets_edges:
  "{(a, b). \<exists>ds. dependency_sets ts a = Some ds \<and> b \<in> set ds} = depends_on ts"
proof -
  have "\<And>a b. (\<exists>ds. dependency_sets ts a = Some ds \<and> b \<in> set ds) \<longleftrightarrow>
                 (\<exists>t \<in> set ts. task_id t = a \<and> b \<in> set (dependencies t))"
  proof -
    fix a b
    show "(\<exists>ds. dependency_sets ts a = Some ds \<and> b \<in> set ds) \<longleftrightarrow>
                 (\<exists>t \<in> set ts. task_id t = a \<and> b \<in> set (dependencies t))"
    proof (cases "dependency_sets ts a")
      case None
      then show ?thesis using dependency_sets_None by simp
    next
      case (Some ds)
      then show ?thesis using dependency_sets_Some[OF Some] by simp
    qed
  qed
  then show ?thesis by (simp add: depends_on_def)
qed

lemma deps_closed_dom: "deps_closed ts \<Longrightarrow> deps_dom_closed (dependency_sets ts)"
  unfolding deps_dom_closed_def dom_dependency_sets
  by (auto simp: deps_closed_def dependency_sets_def list_all_iff split: if_splits)

lemma visit_inv_init: "visit_inv deps \<lparr>visited = {}, temp_visited = {}, order = []\<rparr>"
  by (simp add: visit_inv_def)

lemma exec_order_ok_or_cycle:
  assumes "deps_closed ts"
  shows "ok_or_cycle (get_execution_order ts)"
proof -
  let ?r = "visit_keys (Suc (length (task_keys ts))) (dependency_sets ts) (tasks_by_id ts)
             (task_keys ts) \<lparr>visited = {}, temp_visited = {}, order = []\<rparr>"
  have "card (dom (dependency_sets ts)) \<le> length (task_keys ts)"
    unfolding dom_dependency_sets set_task_keys[symmetric] by (rule card_length)
  then have c: "card (dom (dependency_sets ts)) < Suc (length (task_keys ts))" by simp
  have "ok_or_cycle ?r"
    by (rule visit_keys_total[OF _ deps_closed_dom[OF assms] _ _ _ c])
       (simp_all add: dom_dependency_sets dom_tasks_by_id set_task_keys)
  then show ?thesis
    by (cases ?r) (simp_all add: get_execution_order_def ok_or_cycle_def)
qed

lemma exec_order_later:
  assumes "get_execution_order ts = Inr os"
  shows "deps_later (dependency_sets ts) (map task_id os)"
    and "set (map task_id ts) \<subseteq> set (map task_id os)"
proof -
  let ?r = "visit_keys (Suc (length (task_keys ts))) (dependency_sets ts) (tasks_by_id ts)
             (task_keys ts) \<lparr>visited = {}, temp_visited = {}, order = []\<rparr>"
  from assms obtain st where r: "?r = Inr st" and os: "os = rev (order st)"
    by (auto simp: get_execution_order_def split: sum.splits)
  from visit_keys_partial[OF tbi_ok_tasks_by_id r visit_inv_init]
  have i: "visit_inv (dependency_sets ts) st" and k: "set (task_keys ts) \<subseteq> visited st"
    by simp_all
  from i show "deps_later (dependency_sets ts) (map task_id os)"
    by (simp add: visit_inv_def os rev_map)
  from i k show "set (map task_id ts) \<subseteq> set (map task_id os)"
    by (simp add: visit_inv_def os set_task_keys)
qed

lemma exec_order_acyclic:
  assumes "get_execution_order ts = Inr os"
  shows "acyclic (depends_on ts)"
proof -
  have "dom (dependency_sets ts) \<subseteq> set (map task_id os)"
    using exec_order_later(2)[OF assms] by (simp add: dom_dependency_sets)
  from deps_later_acyclic[OF exec_order_later(1)[OF assms] this]
  show ?thesis by (simp add: dependency_sets_edges)
qed

lemma cycle_raises:
  assumes "deps_closed ts" "has_cycle ts"
  shows "get_execution_order ts = Inl (ValueError circular_message)"
proof (cases "get_execution_order ts")
  case (Inl e)
  with exec_order_ok_or_cycle[OF assms(1)] show ?thesis by (simp add: ok_or_cycle_def)
next
  case (Inr os)
  from exec_order_acyclic[OF Inr] assms(2) show ?thesis
    by (auto simp: acyclic_def has_cycle_def)
qed

text \<open>
  The outcome does not depend on the order in which Python iterates the sets of
  dependency ids: whatever lists stand for the sets, a cycle ends the traversal with the
  same error.
\<close>

lemma cycle_raises_any_order:
  assumes dm: "dom deps = set (map task_id ts)"
    and edges: "\<And>k ds. deps k = Some ds \<Longrightarrow> set ds = {b. (k, b) \<in> depends_on ts}"
    and closed: "deps_closed ts" and cyc: "has_cycle ts"
  shows "visit_keys (Suc (length (task_keys ts))) deps (tasks_by_id ts) (task_keys ts)
           \<lparr>visited = {}, temp_visited = {}, order = []\<rparr> = Inl (ValueError circular_message)"
proof -
  let ?r = "visit_keys (Suc (length (task_keys ts))) deps (tasks_by_id ts) (task_keys ts)
           \<lparr>visited = {}, temp_visited = {}, order = []\<rparr>"
  have cl: "deps_dom_closed deps"
    unfolding deps_dom_closed_def
  proof (intro allI impI subsetI)
    fix k ds b assume d: "deps k = Some ds" and b: "b \<in> set ds"
    from edges[OF d] b have "(k, b) \<in> depends_on ts" by simp
    then obtain t where "t \<in> set ts" "b \<in> set (dependencies t)" by (auto simp: depends_on_def)
    with closed have "b \<in> set (map task_id ts)" by (auto simp: deps_closed_def list_all_iff)
    with dm show "b \<in> dom deps" by simp
  qed
  have "card (dom deps) \<le> length (task_keys ts)"
    unfolding dm set_task_keys[symmetric] by (rule card_length)
  then have c: "card (dom deps) < Suc (length (task_keys ts))" by simp
  have tot: "ok_or_cycle ?r"
    by (rule visit_keys_total[OF _ cl _ _ _ c]) (simp_all add: dm dom_tasks_by_id set_task_keys)
  show ?thesis
  proof (cases ?r)
    case (Inl e)
    with tot show ?thesis by (simp add: ok_or_cycle_def)
  next
    case (Inr st)
    from visit_keys_partial[OF tbi_ok_tasks_by_id Inr visit_inv_init]
    have i: "visit_inv deps st" and k: "set (task_keys ts) \<subseteq> visited st" by simp_all
    have dl: "deps_later deps (rev (map task_id (order st)))" using i by (simp add: visit_inv_def)
    have "dom deps \<subseteq> set (rev (map task_id (order st)))"
      using i k by (simp add: visit_inv_def dm set_task_keys)
    from deps_later_acyclic[OF dl this]
    have ac: "acyclic {(a, b). \<exists>ds. deps a = Some ds \<and> b \<in> set ds}" .
    have "{(a, b). \<exists>ds. deps a = Some ds \<and> b \<in> set ds} = depends_on ts"
    proof -
      have "(\<exists>ds. deps a = Some ds \<and> b \<in> set ds) \<longleftrightarrow> (a, b) \<in> depends_on ts" for a b
      proof
        assume "\<exists>ds. deps a = Some ds \<and> b \<in> set ds"
        then show "(a, b) \<in> depends_on ts" using edges by blast
      next
        assume ab: "(a, b) \<in> depends_on ts"
        then have "a \<in> set (map task_id ts)" by (auto simp: depends_on_def)
        with dm obtain ds where d: "deps a = Some ds" by auto
        with edges[OF d] ab show "\<exists>ds. deps a = Some ds \<and> b \<in> set ds" by simp
      qed
      then show ?thesis by simp
    qed
    with ac cyc show ?thesis by (auto simp: acyclic_def has_cycle_def)
  qed
qed

text \<open>
  C1. The claim: for an acyclic task set the returned list places every task after all
  of its dependencies. \<open>visit\<close> appends a task after its dependencies, and
  \<open>_get_execution_order\<close> then returns the list reversed, so every task comes before
  its dependencies (lemma \<open>exec_order_later\<close>). For the two first stages of the
  pipeline, where text extraction depends on preprocessing, the returned order starts
  with text extraction.
\<close>

theorem execution_order_reversed:
  "get_execution_order
     [\<lparr>task_id = ''wf_preprocess'', task_type = PREPROCESS, status = PENDING,
        dependencies = [], result = PNone, error = None\<rparr>,
      \<lparr>task_id = ''wf_extract_text'', task_type = EXTRACT_TEXT, status = PENDING,
        dependencies = [''wf_preprocess''], result = PNone, error = None\<rparr>]
   = Inr [\<lparr>task_id = ''wf_extract_text'', task_type = EXTRACT_TEXT, status = PENDING,
            dependencies = [''wf_preprocess''], result = PNone, error = None\<rparr>,
          \<lparr>task_id = ''wf_preprocess'', task_type = PREPROCESS, status = PENDING,
            dependencies = [], result = PNone, error = None\<rparr>]"
  by code_simp

text \<open>
  C9. The claim: for a task set with a dependency cycle the computation raises an error
  whose message names a task id of the cycle. The error is raised, but its message is
  the same text for every task set. Amended: for every task set with a dependency
  cycle, whose dependencies all name tasks of the set, \<open>_get_execution_order\<close> raises
  ValueError with the fixed message "Circular dependency detected in workflow tasks";
  the message names no task.
\<close>

theorem cycle_raises_fixed_message:
  assumes "deps_closed ts" and "has_cycle ts"
  shows "get_execution_order ts = Inl (ValueError circular_message)"
  using assms by (rule cycle_raises)

lemma two_cycle:
  assumes "(a, b) \<in> depends_on ts" and "(b, a) \<in> depends_on ts"
  shows "has_cycle ts"
proof -
  from assms have "(a, a) \<in> (depends_on ts)\<^sup>+"
    by (rule trancl_into_trancl2[OF _ r_into_trancl])
  then show ?thesis unfolding has_cycle_def by blast
qed

lemma has_cycle_example:
  "has_cycle
     [\<lparr>task_id = ''task_a'', task_type = PREPROCESS, status = PENDING,
        dependencies = [''task_b''], result = PNone, error = None\<rparr>,
      \<lparr>task_id = ''task_b'', task_type = EXTRACT_TEXT, status = PENDING,
        dependencies = [''task_a''], result = PNone, error = None\<rparr>]"
  by (rule two_cycle[of "''task_a''" "''task_b''"]) (simp_all add: depends_on_def)

theorem cycle_raises_fixed_message_witness:
  "deps_closed
     [\<lparr>task_id = ''task_a'', task_type = PREPROCESS, status = PENDING,
        dependencies = [''task_b''], result = PNone, error = None\<rparr>,
      \<lparr>task_id = ''task_b'', task_type = EXTRACT_TEXT, status = PENDING,
        dependencies = [''task_a''], result = PNone, error = None\<rparr>]
   \<and> has_cycle
     [\<lparr>task_id = ''task_a'', task_type = PREPROCESS, status = PENDING,
        dependencies = [''task_b''], result = PNone, error = None\<rparr>,
      \<lparr>task_id = ''task_b'', task_type = EXTRACT_TEXT, status = PENDING,
        dependencies = [''task_a''], result = PNone, error = None\<rparr>]
   \<and> get_execution_order
     [\<lparr>task_id = ''task_a'', task_type = PREPROCESS, status = PENDING,
        dependencies = [''task_b''], result = PNone, error = None\<rparr>,
      \<lparr>task_id = ''task_b'', task_type = EXTRACT_TEXT, status = PENDING,
        dependencies = [''task_a''], result = PNone, error = None\<rparr>]
     = Inl (ValueError circular_message)"
proof -
  let ?ts = "[\<lparr>task_id = ''task_a'', task_type = PREPROCESS, status = PENDING,
        dependencies = [''task_b''], result = PNone, error = None\<rparr>,
      \<lparr>task_id = ''task_b'', task_type = EXTRACT_TEXT, status = PENDING,
        dependencies = [''task_a''], result = PNone, error = None\<rparr>]"
  have c: "deps_closed ?ts" by (simp add: deps_closed_def)
  from c has_cycle_example cycle_raises_fixed_message[OF c has_cycle_example]
  show ?thesis by simp
qed

theorem cycle_message_names_no_task:
  "has_cycle
     [\<lparr>task_id = ''task_a'', task_type = PREPROCESS, status = PENDING,
        dependencies = [''task_b''], result = PNone, error = None\<rparr>,
      \<lparr>task_id = ''task_b'', task_type = EXTRACT_TEXT, status = PENDING,
        dependencies = [''task_a''], result = PNone, error = None\<rparr>]
   \<and> get_execution_order
     [\<lparr>task_id = ''task_a'', task_type = PREPROCESS, status = PENDING,
        dependencies = [''task_b''], result = PNone, error = None\<rparr>,
      \<lparr>task_id = ''task_b'', task_type = EXTRACT_TEXT, status = PENDING,
        dependencies = [''task_a''], result = PNone, error = None\<rparr>]
     = Inl (ValueError ''Circular dependency detected in workflow tasks'')
   \<and> \<not> sublist ''task_a'' (str_of_error (ValueError ''Circular dependency detected in workflow tasks''))
   \<and> \<not> sublist ''task_b'' (str_of_error (ValueError ''Circular dependency detected in workflow tasks''))"
proof -
  have "get_execution_order
     [\<lparr>task_id = ''task_a'', task_type = PREPROCESS, status = PENDING,
        dependencies = [''task_b''], result = PNone, error = None\<rparr>,
      \<lparr>task_id = ''task_b'', task_type = EXTRACT_TEXT, status = PENDING,
        dependencies = [''task_a''], result = PNone, error = None\<rparr>]
     = Inl (ValueError ''Circular dependency detected in workflow tasks'')"
    by code_simp
  moreover have "\<not> sublist ''task_a'' (str_of_error (ValueError ''Circular dependency detected in workflow tasks''))"
    by (simp add: sublist_code)
  moreover have "\<not> sublist ''task_b'' (str_of_error (ValueError ''Circular dependency detected in workflow tasks''))"
    by (simp add: sublist_code)
  ultimately show ?thesis using has_cycle_example by simp
qed

section \<open>Properties of \<open>execute_workflow\<close>\<close>

text \<open>
  C5. For every workflow whose dependency graph has a cycle (its dependencies naming
  tasks of the workflow), \<open>execute_workflow\<close> raises the cycle error whatever the
  schedule, so no coroutine takes a step; the stored workflow is Failed with the
  message of that error and its tasks are the ones it had, none changed.
\<close>

theorem execute_workflow_cycle:
  assumes "db wid = Some w" and "deps_closed (wf_tasks w)" and "has_cycle (wf_tasks w)"
  shows "execute_workflow can n now0 now1 db wid sched =
           (Raised (ValueError circular_message),
            db(wid \<mapsto> w\<lparr>wf_status := FAILED, wf_error := Some circular_message,
                          updated_at := Some now1\<rparr>))"
  using assms(1) cycle_raises[OF assms(2,3)]
  by (simp add: execute_workflow_def)

theorem execute_workflow_cycle_witness:
  "[''wf'' \<mapsto> \<lparr>wf_id = ''wf'', document_id = ''doc'', wf_status = PENDING, wf_error = None,
       created_at = None, updated_at = None, completed_at = None,
       wf_tasks = [\<lparr>task_id = ''task_a'', task_type = PREPROCESS, status = PENDING,
                     dependencies = [''task_b''], result = PNone, error = None\<rparr>,
                   \<lparr>task_id = ''task_b'', task_type = EXTRACT_TEXT, status = PENDING,
                     dependencies = [''task_a''], result = PNone, error = None\<rparr>]\<rparr>] ''wf''
    = Some \<lparr>wf_id = ''wf'', document_id = ''doc'', wf_status = PENDING, wf_error = None,
       created_at = None, updated_at = None, completed_at = None,
       wf_tasks = [\<lparr>task_id = ''task_a'', task_type = PREPROCESS, status = PENDING,
                     dependencies = [''task_b''], result = PNone, error = None\<rparr>,
                   \<lparr>task_id = ''task_b'', task_type = EXTRACT_TEXT, status = PENDING,
                     dependencies = [''task_a''], result = PNone, error = None\<rparr>]\<rparr>
   \<and> fst (execute_workflow can_execute 4 ''t0'' ''t1''
        [''wf'' \<mapsto> \<lparr>wf_id = ''wf'', document_id = ''doc'', wf_status = PENDING, wf_error = None,
           created_at = None, updated_at = None, completed_at = None,
           wf_tasks = [\<lparr>task_id = ''task_a'', task_type = PREPROCESS, status = PENDING,
                         dependencies = [''task_b''], result = PNone, error = None\<rparr>,
                       \<lparr>task_id = ''task_b'', task_type = EXTRACT_TEXT, status = PENDING,
                         dependencies = [''task_a''], result = PNone, error = None\<rparr>]\<rparr>]
        ''wf'' [Acquire ''task_a'', Begin ''task_a''])
     = Raised (ValueError circular_message)"
proof -
  let ?ts = "[\<lparr>task_id = ''task_a'', task_type = PREPROCESS, status = PENDING,
        dependencies = [''task_b''], result = PNone, error = None\<rparr>,
      \<lparr>task_id = ''task_b'', task_type = EXTRACT_TEXT, status = PENDING,
        dependencies = [''task_a''], result = PNone, error = None\<rparr>]"
  let ?w = "\<lparr>wf_id = ''wf'', document_id = ''doc'', wf_status = PENDING, wf_error = None,
       created_at = None, updated_at = None, completed_at = None, wf_tasks = ?ts\<rparr>"
  have d: "[''wf'' \<mapsto> ?w] ''wf'' = Some ?w" by simp
  have c: "deps_closed (wf_tasks ?w)" by (simp add: deps_closed_def)
  have h: "has_cycle (wf_tasks ?w)" using has_cycle_example by simp
  from execute_workflow_cycle[where db = "[''wf'' \<mapsto> ?w]" and wid = "''wf''" and w = ?w
         and can = can_execute and n = 4 and ?now0.0 = "''t0''" and ?now1.0 = "''t1''"
         and sched = "[Acquire ''task_a'', Begin ''task_a'']", OF d c h]
  show ?thesis by simp
qed

text \<open>
  C10. For a workflow id that is absent from the store, \<open>get_workflow_status\<close> returns
  the payload with the id and the status \<open>not_found\<close>, while \<open>execute_workflow\<close>
  raises ValueError and leaves the store as it is.
\<close>

theorem missing_workflow:
  assumes "db wid = None"
  shows "get_workflow_status db wid = PDict [(''workflow_id'', PStr wid), (''status'', PStr ''not_found'')]
         \<and> execute_workflow can n now0 now1 db wid sched
             = (Raised (ValueError (''Workflow not found: '' @ wid)), db)"
  using assms by (simp add: get_workflow_status_def execute_workflow_def)

theorem missing_workflow_witness:
  "(Map.empty :: string \<rightharpoonup> Workflow) ''wf_0123456789'' = None
   \<and> get_workflow_status Map.empty ''wf_0123456789''
       = PDict [(''workflow_id'', PStr ''wf_0123456789''), (''status'', PStr ''not_found'')]
   \<and> fst (execute_workflow can_execute 4 ''t0'' ''t1'' Map.empty ''wf_0123456789'' [])
       = Raised (ValueError ''Workflow not found: wf_0123456789'')"
proof -
  have e: "(Map.empty :: string \<rightharpoonup> Workflow) ''wf_0123456789'' = None" by simp
  from missing_workflow[where db = "Map.empty" and wid = "''wf_0123456789''"
         and can = can_execute and n = 4 and ?now0.0 = "''t0''" and ?now1.0 = "''t1''"
         and sched = "[]", OF e]
  show ?thesis by simp
qed

section \<open>Properties of the coroutines\<close>

lemma count_fun_upd:
  "distinct xs \<Longrightarrow> k \<in> set xs \<Longrightarrow>
   length (filter (\<lambda>y. P ((f(k := v)) y)) xs) + (if P (f k) then 1 else 0)
     = length (filter (\<lambda>y. P (f y)) xs) + (if P v then 1 else 0)"
proof (induction xs)
  case Nil
  then show ?case by simp
next
  case (Cons x xs)
  show ?case
  proof (cases "x = k")
    case True
    with Cons.prems have "k \<notin> set xs" by simp
    then have "filter (\<lambda>y. P ((f(k := v)) y)) xs = filter (\<lambda>y. P (f y)) xs"
      by (intro filter_cong) auto
    with True show ?thesis by simp
  next
    case False
    with Cons show ?thesis by simp
  qed
qed

lemma holders_upd:
  assumes "distinct (coros s)" "k \<in> set (coros s)"
  shows "holders (s\<lparr>pcs := (pcs s)(k := v)\<rparr>) + (if holds_sem (pcs s k) then 1 else 0)
           = holders s + (if holds_sem v then 1 else 0)"
  using count_fun_upd[OF assms, of holds_sem "pcs s" v] by (simp add: holders_def)

lemma holders_cong:
  "pcs s' = pcs s \<Longrightarrow> coros s' = coros s \<Longrightarrow> holders s' = holders s"
  by (simp add: holders_def)

lemma coros_exec_event: "coros (exec_event can e s) = coros s"
  by (cases e) (auto split: prod.splits pc.splits bool.splits)

lemma ids_update_task: "(\<And>t. task_id (f t) = task_id t) \<Longrightarrow> map task_id (update_task k f ts) = map task_id ts"
  by (induction ts) (auto simp: update_task_def)

lemma ids_begin_task: "map task_id (snd (begin_task can ts k)) = map task_id ts"
  by (auto simp: begin_task_def ids_update_task split: option.splits)

lemma ids_finish_task: "map task_id (snd (finish_task ts k out)) = map task_id ts"
  by (auto simp: finish_task_def ids_update_task split: sum.splits)

lemma ids_exec_event: "map task_id (tstate (exec_event can e s)) = map task_id (tstate s)"
proof (cases e)
  case (Acquire k)
  then show ?thesis by simp
next
  case (Begin k)
  then show ?thesis using ids_begin_task[of can "tstate s" k]
    by (auto split: prod.splits bool.splits)
next
  case (Finish k out)
  then show ?thesis using ids_finish_task[of "tstate s" k out]
    by (auto split: prod.splits)
next
  case (Release k)
  then show ?thesis by (auto split: pc.splits)
qed

lemma sem_inv_exec_event:
  assumes "sem_inv N s"
  shows "sem_inv N (exec_event can e s)"
proof -
  from assms have d: "distinct (coros s)" and eq: "sem s + holders s = N"
    by (simp_all add: sem_inv_def)
  show ?thesis
  proof (cases e)
    case (Acquire k)
    show ?thesis
    proof (cases "k \<in> set (coros s) \<and> pcs s k = Waiting \<and> 0 < sem s")
      case True
      from holders_upd[OF d, of k Holding] True
      have "holders (s\<lparr>pcs := (pcs s)(k := Holding)\<rparr>) = holders s + 1" by simp
      moreover have "holders (s\<lparr>sem := sem s - 1, pcs := (pcs s)(k := Holding)\<rparr>)
                       = holders (s\<lparr>pcs := (pcs s)(k := Holding)\<rparr>)"
        by (rule holders_cong) simp_all
      ultimately show ?thesis using True d eq Acquire by (simp add: sem_inv_def)
    next
      case False
      then show ?thesis using assms Acquire by auto
    qed
  next
    case (Begin k)
    show ?thesis
    proof (cases "k \<in> set (coros s) \<and> pcs s k = Holding")
      case True
      obtain b ts' where bt: "begin_task can (tstate s) k = (b, ts')" by fastforce
      let ?v = "if b then Executing else Exiting None"
      from holders_upd[OF d, of k ?v] True
      have "holders (s\<lparr>pcs := (pcs s)(k := ?v)\<rparr>) = holders s" by (cases b) simp_all
      moreover have "holders (s\<lparr>tstate := ts', pcs := (pcs s)(k := ?v)\<rparr>)
                       = holders (s\<lparr>pcs := (pcs s)(k := ?v)\<rparr>)"
        by (rule holders_cong) simp_all
      ultimately show ?thesis using True d eq Begin bt by (cases b) (simp_all add: sem_inv_def)
    next
      case False
      then show ?thesis using assms Begin by auto
    qed
  next
    case (Finish k out)
    show ?thesis
    proof (cases "k \<in> set (coros s) \<and> pcs s k = Executing")
      case True
      obtain x ts' where ft: "finish_task (tstate s) k out = (x, ts')" by fastforce
      from holders_upd[OF d, of k "Exiting x"] True
      have "holders (s\<lparr>pcs := (pcs s)(k := Exiting x)\<rparr>) = holders s" by simp
      moreover have "holders (s\<lparr>tstate := ts', pcs := (pcs s)(k := Exiting x)\<rparr>)
                       = holders (s\<lparr>pcs := (pcs s)(k := Exiting x)\<rparr>)"
        by (rule holders_cong) simp_all
      ultimately show ?thesis using True d eq Finish ft by (simp add: sem_inv_def)
    next
      case False
      then show ?thesis using assms Finish by auto
    qed
  next
    case (Release k)
    show ?thesis
    proof (cases "\<exists>x. pcs s k = Exiting x \<and> k \<in> set (coros s)")
      case True
      then obtain x where x: "pcs s k = Exiting x" and k: "k \<in> set (coros s)" by blast
      from holders_upd[OF d k, of "Finished x"] x
      have "holders (s\<lparr>pcs := (pcs s)(k := Finished x)\<rparr>) + 1 = holders s" by simp
      moreover have "holders (s\<lparr>sem := sem s + 1, pcs := (pcs s)(k := Finished x),
                 first_exc := (case first_exc s of None \<Rightarrow> x | Some e \<Rightarrow> Some e)\<rparr>)
                       = holders (s\<lparr>pcs := (pcs s)(k := Finished x)\<rparr>)"
        by (rule holders_cong) simp_all
      ultimately show ?thesis using x k d eq Release by (simp add: sem_inv_def)
    next
      case False
      then have "exec_event can e s = s" using Release by (auto split: pc.splits)
      then show ?thesis using assms by simp
    qed
  qed
qed

lemma status_update_task:
  "t' \<in> set (update_task k f ts) \<Longrightarrow>
     (\<exists>t \<in> set ts. (task_id t = k \<and> t' = f t) \<or> (task_id t \<noteq> k \<and> t' = t))"
  by (auto simp: update_task_def)

lemma running_inv_exec_event:
  assumes "running_inv s"
  shows "running_inv (exec_event can e s)"
proof (cases e)
  case (Acquire k)
  then show ?thesis using assms by (auto simp: running_inv_def)
next
  case (Begin k)
  then show ?thesis using assms
    by (auto simp: running_inv_def begin_task_def split: option.splits if_splits dest!: status_update_task)
next
  case (Finish k out)
  then show ?thesis using assms
    by (auto simp: running_inv_def finish_task_def split: sum.splits if_splits dest!: status_update_task)
next
  case (Release k)
  then show ?thesis using assms by (auto simp: running_inv_def split: pc.splits)
qed

lemma running_le_holders:
  assumes "running_inv s" "distinct (map task_id (tstate s))"
  shows "running_count (tstate s) \<le> holders s"
proof -
  let ?R = "filter (\<lambda>t. status t = RUNNING) (tstate s)"
  let ?H = "filter (\<lambda>k. holds_sem (pcs s k)) (coros s)"
  have d: "distinct (map task_id ?R)" using assms(2) by (rule distinct_map_filter)
  have sub: "set (map task_id ?R) \<subseteq> set ?H" using assms(1) by (auto simp: running_inv_def)
  have "length ?R = card (set (map task_id ?R))" using distinct_card[OF d] by simp
  also have "\<dots> \<le> card (set ?H)" by (rule card_mono[OF _ sub]) simp
  also have "\<dots> \<le> length ?H" by (rule card_length)
  finally show ?thesis by (simp add: running_count_def holders_def)
qed

lemma run_events_invs:
  assumes "sem_inv N s" "running_inv s" "distinct (map task_id (tstate s))"
  shows "sem_inv N (run_events can es s) \<and> running_inv (run_events can es s)
         \<and> distinct (map task_id (tstate (run_events can es s)))"
  using assms
proof (induction es arbitrary: s)
  case Nil
  then show ?case by simp
next
  case (Cons e es)
  have "sem_inv N (exec_event can e s)" using Cons.prems(1) by (rule sem_inv_exec_event)
  moreover have "running_inv (exec_event can e s)" using Cons.prems(2) by (rule running_inv_exec_event)
  moreover have "distinct (map task_id (tstate (exec_event can e s)))"
    using Cons.prems(3) by (simp add: ids_exec_event)
  ultimately show ?case using Cons.IH by simp
qed

lemma distinct_exec_order:
  assumes "get_execution_order ts = Inr ord"
  shows "distinct (map task_id ord)"
proof -
  have "deps_later deps xs \<Longrightarrow> distinct xs" for deps xs
    by (induction xs) auto
  from this[OF exec_order_later(1)[OF assms]] show ?thesis .
qed

lemma running_bound:
  assumes "get_execution_order ts = Inr ord"
    and "distinct (map task_id ts)"
    and "\<forall>t \<in> set ts. status t \<noteq> RUNNING"
  shows "running_count (tstate (run_events can sched (init_exec N ts ord))) \<le> N"
proof -
  let ?s0 = "init_exec N ts ord"
  have 1: "sem_inv N ?s0"
    using distinct_exec_order[OF assms(1)] by (simp add: sem_inv_def init_exec_def holders_def)
  have 2: "running_inv ?s0" using assms(3) by (simp add: running_inv_def init_exec_def)
  have 3: "distinct (map task_id (tstate ?s0))" using assms(2) by (simp add: init_exec_def)
  from run_events_invs[OF 1 2 3, of can sched]
  have a: "sem_inv N (run_events can sched ?s0)" and b: "running_inv (run_events can sched ?s0)"
    and c: "distinct (map task_id (tstate (run_events can sched ?s0)))" by simp_all
  from running_le_holders[OF b c] a show ?thesis by (simp add: sem_inv_def)
qed

lemma in_update_task:
  "t' \<in> set (update_task k f ts) \<longleftrightarrow> (\<exists>t \<in> set ts. t' = (if task_id t = k then f t else t))"
  by (simp only: update_task_def set_map image_iff)

lemma update_task_other: "t \<in> set ts \<Longrightarrow> task_id t \<noteq> k \<Longrightarrow> t \<in> set (update_task k f ts)"
  unfolding in_update_task by (rule bexI[of _ t]) simp_all

lemma update_task_same: "t \<in> set ts \<Longrightarrow> task_id t = k \<Longrightarrow> f t \<in> set (update_task k f ts)"
  unfolding in_update_task by (rule bexI[of _ t]) simp_all

lemma update_task_elim:
  assumes "t' \<in> set (update_task k f ts)"
  obtains (upd) t where "t \<in> set ts" "task_id t = k" "t' = f t"
        | (same) "t' \<in> set ts" "task_id t' \<noteq> k"
proof -
  from assms obtain t where t: "t \<in> set ts" "t' = (if task_id t = k then f t else t)"
    unfolding in_update_task by blast
  show ?thesis
  proof (cases "task_id t = k")
    case True
    with t upd show ?thesis by simp
  next
    case False
    with t same show ?thesis by simp
  qed
qed

lemma find_task_SomeD: "find_task ts k = Some t \<Longrightarrow> t \<in> set ts \<and> task_id t = k"
  by (auto simp: find_task_def find_Some_iff)

lemma find_task_NoneD: "find_task ts k = None \<Longrightarrow> t \<in> set ts \<Longrightarrow> task_id t \<noteq> k"
  by (auto simp: find_task_def find_None_iff)

lemma begin_task_cases:
  obtains (skip) "begin_task can ts k = (False, ts)"
        | (run) t where "find_task ts k = Some t" "can ts t"
                  "begin_task can ts k = (True, update_task k (\<lambda>t. t\<lparr>status := RUNNING\<rparr>) ts)"
proof (cases "find_task ts k")
  case None
  then have "begin_task can ts k = (False, ts)" by (simp add: begin_task_def)
  then show ?thesis by (rule skip)
next
  case (Some t)
  show ?thesis
  proof (cases "can ts t")
    case True
    with Some have "begin_task can ts k = (True, update_task k (\<lambda>t. t\<lparr>status := RUNNING\<rparr>) ts)"
      by (simp add: begin_task_def)
    with Some True show ?thesis by (rule run)
  next
    case False
    with Some have "begin_task can ts k = (False, ts)" by (simp add: begin_task_def)
    then show ?thesis by (rule skip)
  qed
qed

lemma finish_task_cases:
  obtains (ok) r where "out = Inr r"
                  "finish_task ts k out = (None, update_task k (\<lambda>t. t\<lparr>result := r, status := COMPLETED\<rparr>) ts)"
        | (err) e where "out = Inl e"
                  "finish_task ts k out = (Some e, update_task k (\<lambda>t. t\<lparr>status := FAILED, error := Some (str_of_error e)\<rparr>) ts)"
  by (cases out) (auto simp: finish_task_def)

lemma exec_inv_exec_event:
  assumes "exec_inv s"
  shows "exec_inv (exec_event can e s)"
proof (cases e)
  case (Acquire k)
  then show ?thesis using assms by (auto simp: exec_inv_def)
next
  case (Begin k)
  show ?thesis
  proof (cases "k \<in> set (coros s) \<and> pcs s k = Holding")
    case True
    show ?thesis
    proof (cases rule: begin_task_cases[of can "tstate s" k])
      case skip
      with True Begin assms show ?thesis by (auto simp: exec_inv_def)
    next
      case (run t)
      from find_task_SomeD[OF run(1)] have t: "t \<in> set (tstate s)" "task_id t = k" by simp_all
      have "exec_inv (s\<lparr>tstate := update_task k (\<lambda>t. t\<lparr>status := RUNNING\<rparr>) (tstate s),
                         pcs := (pcs s)(k := Executing)\<rparr>)"
        unfolding exec_inv_def
      proof (intro allI impI conjI)
        fix k' assume "pcs (s\<lparr>tstate := update_task k (\<lambda>t. t\<lparr>status := RUNNING\<rparr>) (tstate s),
                         pcs := (pcs s)(k := Executing)\<rparr>) k' = Executing"
        then have k': "k' = k \<or> pcs s k' = Executing" by (simp split: if_splits)
        have ex: "\<exists>t\<in>set (update_task k (\<lambda>t. t\<lparr>status := RUNNING\<rparr>) (tstate s)). task_id t = k'"
        proof (cases "k' = k")
          case True
          from update_task_same[OF t, of "\<lambda>t. t\<lparr>status := RUNNING\<rparr>"] t(2) True
          show ?thesis by (intro bexI[of _ "t\<lparr>status := RUNNING\<rparr>"]) simp_all
        next
          case False
          with k' assms obtain u where u: "u \<in> set (tstate s)" "task_id u = k'"
            by (auto simp: exec_inv_def)
          from update_task_other[OF u(1), of k] u(2) False show ?thesis by auto
        qed
        then show "\<exists>t\<in>set (tstate (s\<lparr>tstate := update_task k (\<lambda>t. t\<lparr>status := RUNNING\<rparr>) (tstate s),
                         pcs := (pcs s)(k := Executing)\<rparr>)). task_id t = k'" by simp
        have al: "\<forall>t\<in>set (update_task k (\<lambda>t. t\<lparr>status := RUNNING\<rparr>) (tstate s)). task_id t = k' \<longrightarrow> status t = RUNNING"
        proof (intro ballI impI)
          fix u assume u: "u \<in> set (update_task k (\<lambda>t. t\<lparr>status := RUNNING\<rparr>) (tstate s))" "task_id u = k'"
          from u(1) show "status u = RUNNING"
          proof (cases rule: update_task_elim)
            case (upd t0)
            then show ?thesis by simp
          next
            case same
            with u(2) k' assms show ?thesis by (auto simp: exec_inv_def)
          qed
        qed
        then show "\<forall>t\<in>set (tstate (s\<lparr>tstate := update_task k (\<lambda>t. t\<lparr>status := RUNNING\<rparr>) (tstate s),
                         pcs := (pcs s)(k := Executing)\<rparr>)). task_id t = k' \<longrightarrow> status t = RUNNING" by simp
      qed
      with True Begin run show ?thesis by simp
    qed
  next
    case False
    with Begin assms show ?thesis by auto
  qed
next
  case (Finish k out)
  show ?thesis
  proof (cases "k \<in> set (coros s) \<and> pcs s k = Executing")
    case True
    obtain x f where ft: "finish_task (tstate s) k out = (x, update_task k f (tstate s))"
      and fid: "\<And>t. task_id (f t) = task_id t"
      by (cases rule: finish_task_cases[of out "tstate s" k]) auto
    have "exec_inv (s\<lparr>tstate := update_task k f (tstate s), pcs := (pcs s)(k := Exiting x)\<rparr>)"
      unfolding exec_inv_def
    proof (intro allI impI conjI)
      fix k' assume "pcs (s\<lparr>tstate := update_task k f (tstate s), pcs := (pcs s)(k := Exiting x)\<rparr>) k' = Executing"
      then have k': "k' \<noteq> k" "pcs s k' = Executing" by (simp_all split: if_splits)
      from k' assms obtain u where u: "u \<in> set (tstate s)" "task_id u = k'"
        by (auto simp: exec_inv_def)
      from update_task_other[OF u(1), of k f] u(2) k'(1)
      show "\<exists>t\<in>set (tstate (s\<lparr>tstate := update_task k f (tstate s), pcs := (pcs s)(k := Exiting x)\<rparr>)). task_id t = k'"
        by auto
      have "\<forall>t\<in>set (update_task k f (tstate s)). task_id t = k' \<longrightarrow> status t = RUNNING"
      proof (intro ballI impI)
        fix u assume u: "u \<in> set (update_task k f (tstate s))" "task_id u = k'"
        from u(1) show "status u = RUNNING"
        proof (cases rule: update_task_elim)
          case (upd t0)
          with u(2) fid k'(1) show ?thesis by simp
        next
          case same
          with u(2) k' assms show ?thesis by (auto simp: exec_inv_def)
        qed
      qed
      then show "\<forall>t\<in>set (tstate (s\<lparr>tstate := update_task k f (tstate s), pcs := (pcs s)(k := Exiting x)\<rparr>)). task_id t = k' \<longrightarrow> status t = RUNNING"
        by simp
    qed
    with True Finish ft show ?thesis by simp
  next
    case False
    with Finish assms show ?thesis by auto
  qed
next
  case (Release k)
  then show ?thesis using assms by (auto simp: exec_inv_def split: pc.splits)
qed

lemma raised_cases: "raised p \<Longrightarrow> (\<exists>e. p = Exiting (Some e)) \<or> (\<exists>e. p = Finished (Some e))"
  by (cases p rule: raised.cases) auto

lemma failed_inv_exec_event:
  assumes "failed_inv s" "exec_inv s"
  shows "failed_inv (exec_event can e s)"
proof -
  from assms(1) have
    f1: "\<And>t. t \<in> set (tstate s) \<Longrightarrow> status t = FAILED \<Longrightarrow> raised (pcs s (task_id t))" and
    f2: "\<And>k. raised (pcs s k) \<Longrightarrow> (\<exists>t \<in> set (tstate s). task_id t = k \<and> status t = FAILED)" and
    f3: "\<And>k e. k \<in> set (coros s) \<Longrightarrow> pcs s k = Finished (Some e) \<Longrightarrow> first_exc s \<noteq> None" and
    f4: "first_exc s \<noteq> None \<Longrightarrow> (\<exists>k. raised (pcs s k))"
    unfolding failed_inv_def by blast+
  show ?thesis
  proof (cases e)
    case (Acquire k)
    show ?thesis
    proof (cases "k \<in> set (coros s) \<and> pcs s k = Waiting \<and> 0 < sem s")
      case True
      have nr: "\<not> raised (pcs s k)" using True by simp
      have "failed_inv (s\<lparr>sem := sem s - 1, pcs := (pcs s)(k := Holding)\<rparr>)"
        unfolding failed_inv_def
      proof (intro conjI ballI allI impI)
        fix t assume "t \<in> set (tstate (s\<lparr>sem := sem s - 1, pcs := (pcs s)(k := Holding)\<rparr>))"
          "status t = FAILED"
        then have "raised (pcs s (task_id t))" using f1 by simp
        with nr show "raised (pcs (s\<lparr>sem := sem s - 1, pcs := (pcs s)(k := Holding)\<rparr>) (task_id t))"
          by auto
      next
        fix k' assume "raised (pcs (s\<lparr>sem := sem s - 1, pcs := (pcs s)(k := Holding)\<rparr>) k')"
        then have "raised (pcs s k')" by (simp split: if_splits)
        from f2[OF this]
        show "\<exists>t\<in>set (tstate (s\<lparr>sem := sem s - 1, pcs := (pcs s)(k := Holding)\<rparr>)). task_id t = k' \<and> status t = FAILED"
          by simp
      next
        fix k' e' assume "k' \<in> set (coros (s\<lparr>sem := sem s - 1, pcs := (pcs s)(k := Holding)\<rparr>)) \<and>
          pcs (s\<lparr>sem := sem s - 1, pcs := (pcs s)(k := Holding)\<rparr>) k' = Finished (Some e')"
        then have "k' \<in> set (coros s)" "pcs s k' = Finished (Some e')" by (simp_all split: if_splits)
        from f3[OF this] show "first_exc (s\<lparr>sem := sem s - 1, pcs := (pcs s)(k := Holding)\<rparr>) \<noteq> None" by simp
      next
        assume "first_exc (s\<lparr>sem := sem s - 1, pcs := (pcs s)(k := Holding)\<rparr>) \<noteq> None"
        then obtain k' where "raised (pcs s k')" using f4 by auto
        with nr have "raised (pcs (s\<lparr>sem := sem s - 1, pcs := (pcs s)(k := Holding)\<rparr>) k')" by auto
        then show "\<exists>k'. raised (pcs (s\<lparr>sem := sem s - 1, pcs := (pcs s)(k := Holding)\<rparr>) k')" ..
      qed
      with True Acquire show ?thesis by simp
    next
      case False
      with Acquire assms show ?thesis by auto
    qed
  next
    case (Begin k)
    show ?thesis
    proof (cases "k \<in> set (coros s) \<and> pcs s k = Holding")
      case True
      have nr: "\<not> raised (pcs s k)" using True by simp
      obtain b f where bt: "begin_task can (tstate s) k = (b, update_task k f (tstate s))"
        and fid: "\<And>t. task_id (f t) = task_id t"
        and fst: "\<And>t. status (f t) = FAILED \<Longrightarrow> status t = FAILED"
      proof (cases rule: begin_task_cases[of can "tstate s" k])
        case skip
        have "update_task k (\<lambda>t. t) (tstate s) = tstate s" by (simp add: update_task_def)
        with skip that[of False "\<lambda>t. t"] show ?thesis by simp
      next
        case (run t)
        with that[of True "\<lambda>t. t\<lparr>status := RUNNING\<rparr>"] show ?thesis by simp
      qed
      let ?v = "if b then Executing else Exiting None"
      let ?s' = "s\<lparr>tstate := update_task k f (tstate s), pcs := (pcs s)(k := ?v)\<rparr>"
      have nv: "\<not> raised ?v" by simp
      have "failed_inv ?s'"
        unfolding failed_inv_def
      proof (intro conjI ballI allI impI)
        fix t' assume a: "t' \<in> set (tstate ?s')" "status t' = FAILED"
        then obtain t where t: "t \<in> set (tstate s)" "t' = (if task_id t = k then f t else t)"
          by (auto simp: in_update_task)
        have "status t = FAILED" using a(2) t(2) fst by (auto split: if_splits)
        from f1[OF t(1) this] nr have "task_id t \<noteq> k" by auto
        with t f1[OF t(1) \<open>status t = FAILED\<close>] show "raised (pcs ?s' (task_id t'))" by simp
      next
        fix k' assume "raised (pcs ?s' k')"
        with nv have k': "k' \<noteq> k" "raised (pcs s k')" by (auto split: if_splits)
        from f2[OF k'(2)] obtain t where t: "t \<in> set (tstate s)" "task_id t = k'" "status t = FAILED" by blast
        from update_task_other[OF t(1), of k f] t k'(1)
        show "\<exists>t\<in>set (tstate ?s'). task_id t = k' \<and> status t = FAILED"
          by auto
      next
        fix k' e' assume "k' \<in> set (coros ?s') \<and> pcs ?s' k' = Finished (Some e')"
        then have "k' \<in> set (coros s)" "pcs s k' = Finished (Some e')" by (auto split: if_splits)
        from f3[OF this] show "first_exc ?s' \<noteq> None" by simp
      next
        assume "first_exc ?s' \<noteq> None"
        then obtain k' where k': "raised (pcs s k')" using f4 by auto
        with nr have "k' \<noteq> k" by auto
        with k' have "raised (pcs ?s' k')" by simp
        then show "\<exists>k'. raised (pcs ?s' k')" ..
      qed
      with True Begin bt show ?thesis by (cases b) simp_all
    next
      case False
      with Begin assms show ?thesis by auto
    qed
  next
    case (Finish k out)
    show ?thesis
    proof (cases "k \<in> set (coros s) \<and> pcs s k = Executing")
      case True
      have nr: "\<not> raised (pcs s k)" using True by simp
      from assms(2) True obtain tk where tk: "tk \<in> set (tstate s)" "task_id tk = k"
        by (auto simp: exec_inv_def)
      obtain x f where ft: "finish_task (tstate s) k out = (x, update_task k f (tstate s))"
        and fid: "\<And>t. task_id (f t) = task_id t"
        and fx: "\<And>t. status (f t) = FAILED \<longleftrightarrow> x \<noteq> None"
        by (cases rule: finish_task_cases[of out "tstate s" k]) auto
      let ?s' = "s\<lparr>tstate := update_task k f (tstate s), pcs := (pcs s)(k := Exiting x)\<rparr>"
      have rx: "raised (Exiting x) \<longleftrightarrow> x \<noteq> None" by (cases x) simp_all
      have "failed_inv ?s'"
        unfolding failed_inv_def
      proof (intro conjI ballI allI impI)
        fix t' assume a: "t' \<in> set (tstate ?s')" "status t' = FAILED"
        then obtain t where t: "t \<in> set (tstate s)" "t' = (if task_id t = k then f t else t)"
          by (auto simp: in_update_task)
        show "raised (pcs ?s' (task_id t'))"
        proof (cases "task_id t = k")
          case True
          with t a(2) fx fid rx show ?thesis by simp
        next
          case False
          with t a(2) f1[OF t(1)] show ?thesis by simp
        qed
      next
        fix k' assume r: "raised (pcs ?s' k')"
        show "\<exists>t\<in>set (tstate ?s'). task_id t = k' \<and> status t = FAILED"
        proof (cases "k' = k")
          case True
          with r rx have "x \<noteq> None" by simp
          then have "status (f tk) = FAILED" using fx by simp
          moreover have "f tk \<in> set (tstate ?s')" using update_task_same[OF tk, of f] by simp
          ultimately show ?thesis using True tk(2) fid by auto
        next
          case False
          with r have "raised (pcs s k')" by simp
          from f2[OF this] obtain t where t: "t \<in> set (tstate s)" "task_id t = k'" "status t = FAILED" by blast
          from update_task_other[OF t(1), of k f] t False show ?thesis by auto
        qed
      next
        fix k' e' assume "k' \<in> set (coros ?s') \<and> pcs ?s' k' = Finished (Some e')"
        then have "k' \<in> set (coros s)" "pcs s k' = Finished (Some e')" by (auto split: if_splits)
        from f3[OF this] show "first_exc ?s' \<noteq> None" by simp
      next
        assume "first_exc ?s' \<noteq> None"
        then obtain k' where k': "raised (pcs s k')" using f4 by auto
        with nr have "k' \<noteq> k" by auto
        with k' have "raised (pcs ?s' k')" by simp
        then show "\<exists>k'. raised (pcs ?s' k')" ..
      qed
      with True Finish ft show ?thesis by simp
    next
      case False
      with Finish assms show ?thesis by auto
    qed
  next
    case (Release k)
    show ?thesis
    proof (cases "\<exists>x. pcs s k = Exiting x \<and> k \<in> set (coros s)")
      case True
      then obtain x where x: "pcs s k = Exiting x" and k: "k \<in> set (coros s)" by blast
      let ?s' = "s\<lparr>sem := sem s + 1, pcs := (pcs s)(k := Finished x),
                 first_exc := (case first_exc s of None \<Rightarrow> x | Some e \<Rightarrow> Some e)\<rparr>"
      have rr: "raised (Finished x) = raised (pcs s k)" using x by (cases x) simp_all
      have rk: "\<And>k'. raised (pcs ?s' k') = raised (pcs s k')" using rr by simp
      have "failed_inv ?s'"
        unfolding failed_inv_def
      proof (intro conjI ballI allI impI)
        fix t assume "t \<in> set (tstate ?s')" "status t = FAILED"
        then show "raised (pcs ?s' (task_id t))" using f1 rk by simp
      next
        fix k' assume "raised (pcs ?s' k')"
        then have "raised (pcs s k')" using rk by simp
        from f2[OF this] show "\<exists>t\<in>set (tstate ?s'). task_id t = k' \<and> status t = FAILED" by simp
      next
        fix k' e' assume a: "k' \<in> set (coros ?s') \<and> pcs ?s' k' = Finished (Some e')"
        show "first_exc ?s' \<noteq> None"
        proof (cases "k' = k")
          case True
          with a have "x = Some e'" by simp
          then show ?thesis by (simp split: option.splits)
        next
          case False
          with a have "k' \<in> set (coros s)" "pcs s k' = Finished (Some e')" by simp_all
          from f3[OF this] show ?thesis by (auto split: option.splits)
        qed
      next
        assume fe: "first_exc ?s' \<noteq> None"
        have "\<exists>k'. raised (pcs s k')"
        proof (cases "first_exc s")
          case None
          with fe have "x \<noteq> None" by simp
          then have "raised (pcs s k)" using x by (cases x) simp_all
          then show ?thesis ..
        next
          case (Some e0)
          then show ?thesis using f4 by simp
        qed
        then show "\<exists>k'. raised (pcs ?s' k')" using rk by simp
      qed
      with x k Release show ?thesis by simp
    next
      case False
      then have "exec_event can e s = s" using Release by (auto split: pc.splits)
      then show ?thesis using assms by simp
    qed
  qed
qed

lemma find_task_update:
  assumes "\<And>t. task_id (f t) = task_id t"
  shows "find_task (update_task k f ts) d
           = map_option (\<lambda>t. if task_id t = k then f t else t) (find_task ts d)"
  by (induction ts) (simp_all add: find_task_def update_task_def assms)

lemma find_task_update_other:
  assumes "\<And>t. task_id (f t) = task_id t" "d \<noteq> k"
  shows "find_task (update_task k f ts) d = find_task ts d"
proof (cases "find_task ts d")
  case None
  then show ?thesis by (simp add: find_task_update[OF assms(1)])
next
  case (Some t)
  with find_task_SomeD[OF Some] assms(2) show ?thesis
    by (simp add: find_task_update[OF assms(1)])
qed

lemma distinct_ids_eq:
  assumes "distinct (map task_id ts)" "u \<in> set ts" "t \<in> set ts" "task_id u = task_id t"
  shows "u = t"
  using assms by (meson distinct_map inj_onD)

lemma find_task_distinct:
  assumes "distinct (map task_id ts)" "t \<in> set ts"
  shows "find_task ts (task_id t) = Some t"
proof (cases "find_task ts (task_id t)")
  case None
  from find_task_NoneD[OF None assms(2)] show ?thesis by simp
next
  case (Some u)
  from find_task_SomeD[OF Some] have "u \<in> set ts" "task_id u = task_id t" by simp_all
  from distinct_ids_eq[OF assms(1) this(1) assms(2) this(2)] Some show ?thesis by simp
qed

lemma can_execute_deps:
  assumes "can_execute ts t" "d \<in> set (dependencies t)"
  shows "\<exists>dt. find_task ts d = Some dt \<and> status dt = COMPLETED"
  using assms by (auto simp: can_execute_def list_all_iff split: option.splits)

lemma can_execute_pending: "can_execute ts t \<Longrightarrow> status t = PENDING"
  by (simp add: can_execute_def)

lemma deps_done_inv_exec_event:
  assumes inv: "deps_done_inv s" and ex: "exec_inv s" and dist: "distinct (map task_id (tstate s))"
  shows "deps_done_inv (exec_event can_execute e s)"
proof -
  from inv have K: "\<And>t d. t \<in> set (tstate s) \<Longrightarrow> status t \<noteq> PENDING \<Longrightarrow> d \<in> set (dependencies t)
      \<Longrightarrow> \<exists>dt. find_task (tstate s) d = Some dt \<and> status dt = COMPLETED"
    unfolding deps_done_inv_def by blast
  show ?thesis
  proof (cases e)
    case (Acquire k)
    then show ?thesis using inv by (auto simp: deps_done_inv_def)
  next
    case (Release k)
    then show ?thesis using inv by (auto simp: deps_done_inv_def split: pc.splits)
  next
    case (Begin k)
    show ?thesis
    proof (cases "k \<in> set (coros s) \<and> pcs s k = Holding")
      case False
      with Begin inv show ?thesis by auto
    next
      case True
      show ?thesis
      proof (cases rule: begin_task_cases[of can_execute "tstate s" k])
        case skip
        with True Begin inv show ?thesis by (auto simp: deps_done_inv_def)
      next
        case (run t)
        let ?f = "\<lambda>t. t\<lparr>status := RUNNING\<rparr>"
        let ?ts' = "update_task k ?f (tstate s)"
        from find_task_SomeD[OF run(1)] have t: "t \<in> set (tstate s)" "task_id t = k" by simp_all
        have tp: "status t = PENDING" using run(2) by (rule can_execute_pending)
        have keep: "\<And>d dt. find_task (tstate s) d = Some dt \<Longrightarrow> status dt = COMPLETED
                      \<Longrightarrow> find_task ?ts' d = Some dt"
        proof -
          fix d dt assume a: "find_task (tstate s) d = Some dt" "status dt = COMPLETED"
          have "d \<noteq> k" using a run(1) tp by auto
          then show "find_task ?ts' d = Some dt" using a(1) by (simp add: find_task_update_other)
        qed
        have "deps_done_inv (s\<lparr>tstate := ?ts', pcs := (pcs s)(k := Executing)\<rparr>)"
          unfolding deps_done_inv_def
        proof (intro ballI impI)
          fix t' d assume a: "t' \<in> set (tstate (s\<lparr>tstate := ?ts', pcs := (pcs s)(k := Executing)\<rparr>))"
            "status t' \<noteq> PENDING" "d \<in> set (dependencies t')"
          from a(1) have "t' \<in> set ?ts'" by simp
          then have "\<exists>dt. find_task (tstate s) d = Some dt \<and> status dt = COMPLETED"
          proof (cases rule: update_task_elim)
            case (upd u)
            from distinct_ids_eq[OF dist upd(1) t(1)] upd(2) t(2) have "u = t" by simp
            with upd(3) a(3) have "d \<in> set (dependencies t)" by simp
            with run(2) show ?thesis by (rule can_execute_deps)
          next
            case same
            from K[OF same(1) a(2) a(3)] show ?thesis .
          qed
          then obtain dt where "find_task (tstate s) d = Some dt" "status dt = COMPLETED" by blast
          from keep[OF this] this(2)
          show "\<exists>dt. find_task (tstate (s\<lparr>tstate := ?ts', pcs := (pcs s)(k := Executing)\<rparr>)) d = Some dt
                  \<and> status dt = COMPLETED" by simp
        qed
        with True Begin run show ?thesis by simp
      qed
    qed
  next
    case (Finish k out)
    show ?thesis
    proof (cases "k \<in> set (coros s) \<and> pcs s k = Executing")
      case False
      with Finish inv show ?thesis by auto
    next
      case True
      from ex True have run: "\<And>t. t \<in> set (tstate s) \<Longrightarrow> task_id t = k \<Longrightarrow> status t = RUNNING"
        by (auto simp: exec_inv_def)
      obtain x f where ft: "finish_task (tstate s) k out = (x, update_task k f (tstate s))"
        and fid: "\<And>t. task_id (f t) = task_id t"
        and fdep: "\<And>t. dependencies (f t) = dependencies t"
        by (cases rule: finish_task_cases[of out "tstate s" k]) auto
      let ?ts' = "update_task k f (tstate s)"
      have keep: "\<And>d dt. find_task (tstate s) d = Some dt \<Longrightarrow> status dt = COMPLETED
                      \<Longrightarrow> find_task ?ts' d = Some dt"
      proof -
        fix d dt assume a: "find_task (tstate s) d = Some dt" "status dt = COMPLETED"
        from find_task_SomeD[OF a(1)] have "dt \<in> set (tstate s)" "task_id dt = d" by simp_all
        with run[of dt] a(2) have "d \<noteq> k" by auto
        then show "find_task ?ts' d = Some dt" using a(1) fid by (simp add: find_task_update_other)
      qed
      have "deps_done_inv (s\<lparr>tstate := ?ts', pcs := (pcs s)(k := Exiting x)\<rparr>)"
        unfolding deps_done_inv_def
      proof (intro ballI impI)
        fix t' d assume a: "t' \<in> set (tstate (s\<lparr>tstate := ?ts', pcs := (pcs s)(k := Exiting x)\<rparr>))"
          "status t' \<noteq> PENDING" "d \<in> set (dependencies t')"
        from a(1) have "t' \<in> set ?ts'" by simp
        then have "\<exists>dt. find_task (tstate s) d = Some dt \<and> status dt = COMPLETED"
        proof (cases rule: update_task_elim)
          case (upd u)
          from run[OF upd(1,2)] have "status u \<noteq> PENDING" by simp
          moreover have "d \<in> set (dependencies u)" using a(3) upd(3) fdep by simp
          ultimately show ?thesis using K[OF upd(1)] by blast
        next
          case same
          from K[OF same(1) a(2) a(3)] show ?thesis .
        qed
        then obtain dt where "find_task (tstate s) d = Some dt" "status dt = COMPLETED" by blast
        from keep[OF this] this(2)
        show "\<exists>dt. find_task (tstate (s\<lparr>tstate := ?ts', pcs := (pcs s)(k := Exiting x)\<rparr>)) d = Some dt
                \<and> status dt = COMPLETED" by simp
      qed
      with True Finish ft show ?thesis by simp
    qed
  qed
qed

lemma static_update_task:
  assumes "\<And>t. task_id (f t) = task_id t" "\<And>t. dependencies (f t) = dependencies t"
  shows "map (\<lambda>t. (task_id t, dependencies t)) (update_task k f ts)
           = map (\<lambda>t. (task_id t, dependencies t)) ts"
  by (induction ts) (simp_all add: update_task_def assms)

lemma static_exec_event:
  "map (\<lambda>t. (task_id t, dependencies t)) (tstate (exec_event can e s))
     = map (\<lambda>t. (task_id t, dependencies t)) (tstate s)"
proof (cases e)
  case (Acquire k)
  then show ?thesis by simp
next
  case (Release k)
  then show ?thesis by (auto split: pc.splits)
next
  case (Begin k)
  show ?thesis
  proof (cases rule: begin_task_cases[of can "tstate s" k])
    case skip
    with Begin show ?thesis by simp
  next
    case (run t)
    with Begin show ?thesis by (simp add: static_update_task)
  qed
next
  case (Finish k out)
  show ?thesis
  proof (cases rule: finish_task_cases[of out "tstate s" k])
    case (ok r)
    with Finish show ?thesis by (simp add: static_update_task)
  next
    case (err e')
    with Finish show ?thesis by (simp add: static_update_task)
  qed
qed

lemma static_run_events:
  "map (\<lambda>t. (task_id t, dependencies t)) (tstate (run_events can es s))
     = map (\<lambda>t. (task_id t, dependencies t)) (tstate s)"
  by (induction es arbitrary: s) (simp_all add: static_exec_event)

lemma depends_on_static:
  assumes "map (\<lambda>t. (task_id t, dependencies t)) ts' = map (\<lambda>t. (task_id t, dependencies t)) ts"
  shows "depends_on ts' = depends_on ts"
proof -
  define G :: "(string \<times> string list) list \<Rightarrow> (string \<times> string) set"
    where "G ps = {(a, b). \<exists>p \<in> set ps. fst p = a \<and> b \<in> set (snd p)}" for ps
  have e: "depends_on xs = G (map (\<lambda>t. (task_id t, dependencies t)) xs)" for xs
    by (auto simp: depends_on_def G_def)
  show ?thesis by (simp only: e assms)
qed

lemma ids_static:
  assumes "map (\<lambda>t. (task_id t, dependencies t)) ts' = map (\<lambda>t. (task_id t, dependencies t)) ts"
  shows "map task_id ts' = map task_id ts"
proof -
  have "map task_id xs = map fst (map (\<lambda>t. (task_id t, dependencies t)) xs)" for xs by simp
  then show ?thesis using assms by metis
qed

lemma dependents_pending:
  assumes inv: "deps_done_inv s" and dist: "distinct (map task_id (tstate s))"
    and ta: "ta \<in> set (tstate s)" "status ta = FAILED"
    and dep: "(b, task_id ta) \<in> (depends_on (tstate s))\<^sup>+"
  shows "\<forall>tb \<in> set (tstate s). task_id tb = b \<longrightarrow> status tb = PENDING"
  using dep
proof (induction rule: converse_trancl_induct)
  case (base y)
  then obtain ty where ty: "ty \<in> set (tstate s)" "task_id ty = y" "task_id ta \<in> set (dependencies ty)"
    by (auto simp: depends_on_def)
  show ?case
  proof (intro ballI impI)
    fix tb assume tb: "tb \<in> set (tstate s)" "task_id tb = y"
    from distinct_ids_eq[OF dist tb(1) ty(1)] tb(2) ty(2) have e: "tb = ty" by simp
    show "status tb = PENDING"
    proof (rule ccontr)
      assume "status tb \<noteq> PENDING"
      with inv ty e obtain dt where dt: "find_task (tstate s) (task_id ta) = Some dt" "status dt = COMPLETED"
        unfolding deps_done_inv_def by blast
      from find_task_distinct[OF dist ta(1)] dt ta(2) show False by simp
    qed
  qed
next
  case (step y z)
  then obtain ty where ty: "ty \<in> set (tstate s)" "task_id ty = y" "z \<in> set (dependencies ty)"
    by (auto simp: depends_on_def)
  show ?case
  proof (intro ballI impI)
    fix tb assume tb: "tb \<in> set (tstate s)" "task_id tb = y"
    from distinct_ids_eq[OF dist tb(1) ty(1)] tb(2) ty(2) have e: "tb = ty" by simp
    show "status tb = PENDING"
    proof (rule ccontr)
      assume "status tb \<noteq> PENDING"
      with inv ty e obtain dt where dt: "find_task (tstate s) z = Some dt" "status dt = COMPLETED"
        unfolding deps_done_inv_def by blast
      from find_task_SomeD[OF dt(1)] step.IH dt(2) show False by auto
    qed
  qed
qed

lemma run_events_exec_invs:
  assumes "exec_inv s" "failed_inv s"
  shows "exec_inv (run_events can es s) \<and> failed_inv (run_events can es s)"
  using assms
proof (induction es arbitrary: s)
  case Nil
  then show ?case by simp
next
  case (Cons e es)
  have "exec_inv (exec_event can e s)" using Cons.prems(1) by (rule exec_inv_exec_event)
  moreover have "failed_inv (exec_event can e s)" using Cons.prems(2,1) by (rule failed_inv_exec_event)
  ultimately show ?case using Cons.IH by simp
qed

lemma run_events_deps_done:
  assumes "exec_inv s" "deps_done_inv s" "distinct (map task_id (tstate s))"
  shows "deps_done_inv (run_events can_execute es s)"
  using assms
proof (induction es arbitrary: s)
  case Nil
  then show ?case by simp
next
  case (Cons e es)
  have "exec_inv (exec_event can_execute e s)" using Cons.prems(1) by (rule exec_inv_exec_event)
  moreover have "deps_done_inv (exec_event can_execute e s)"
    using Cons.prems(2,1,3) by (rule deps_done_inv_exec_event)
  moreover have "distinct (map task_id (tstate (exec_event can_execute e s)))"
    using Cons.prems(3) by (simp add: ids_exec_event)
  ultimately show ?case using Cons.IH by simp
qed

lemma exec_inv_init: "exec_inv (init_exec N ts ord)"
  by (simp add: exec_inv_def init_exec_def)

lemma failed_inv_init: "\<forall>t \<in> set ts. status t \<noteq> FAILED \<Longrightarrow> failed_inv (init_exec N ts ord)"
  by (simp add: failed_inv_def init_exec_def)

lemma deps_done_inv_init: "\<forall>t \<in> set ts. status t = PENDING \<Longrightarrow> deps_done_inv (init_exec N ts ord)"
  by (simp add: deps_done_inv_def init_exec_def)

lemma coros_run_events: "coros (run_events can es s) = coros s"
  by (induction es arbitrary: s) (simp_all add: coros_exec_event)

lemma execute_workflow_cases:
  assumes "db wid = Some w"
    and "execute_workflow can N now0 now1 db wid sched = (out, db')"
    and "db' wid = Some w'"
  obtains
    (order_error) e where "get_execution_order (wf_tasks w) = Inl e" "out = Raised e"
        "wf_tasks w' = wf_tasks w" "wf_status w' = FAILED" "wf_error w' = Some (str_of_error e)"
  | (awaiting) ord where "get_execution_order (wf_tasks w) = Inr ord"
        "gather_result (run_events can sched (init_exec N (wf_tasks w) ord)) = None"
        "out = Awaiting"
        "wf_tasks w' = tstate (run_events can sched (init_exec N (wf_tasks w) ord))"
  | (raised) ord e where "get_execution_order (wf_tasks w) = Inr ord"
        "gather_result (run_events can sched (init_exec N (wf_tasks w) ord)) = Some (Inl e)"
        "out = Raised e" "wf_status w' = FAILED" "wf_error w' = Some (str_of_error e)"
        "wf_tasks w' = tstate (run_events can sched (init_exec N (wf_tasks w) ord))"
  | (returned) ord where "get_execution_order (wf_tasks w) = Inr ord"
        "gather_result (run_events can sched (init_exec N (wf_tasks w) ord)) = Some (Inr ())"
        "out = Returned (get_workflow_results w')" "wf_status w' = COMPLETED"
        "wf_tasks w' = tstate (run_events can sched (init_exec N (wf_tasks w) ord))"
proof (cases "get_execution_order (wf_tasks w)")
  case (Inl e)
  with assms have "out = Raised e" "w' = w\<lparr>wf_status := FAILED, wf_error := Some (str_of_error e),
                                      updated_at := Some now1\<rparr>"
    by (auto simp: execute_workflow_def)
  with Inl order_error show ?thesis by simp
next
  case (Inr ord)
  let ?s = "run_events can sched (init_exec N (wf_tasks w) ord)"
  show ?thesis
  proof (cases "gather_result ?s")
    case None
    with assms Inr have "out = Awaiting" "w' = w\<lparr>wf_status := RUNNING, updated_at := Some now0, wf_tasks := tstate ?s\<rparr>"
      by (auto simp: execute_workflow_def Let_def)
    with Inr None awaiting show ?thesis by simp
  next
    case (Some r)
    show ?thesis
    proof (cases r)
      case (Inl e)
      with Some assms Inr have "out = Raised e"
        "w' = w\<lparr>wf_status := FAILED, updated_at := Some now1, wf_tasks := tstate ?s,
                wf_error := Some (str_of_error e)\<rparr>"
        by (auto simp: execute_workflow_def Let_def)
      with Inr Some Inl raised show ?thesis by simp
    next
      case (Inr u)
      with Some assms \<open>get_execution_order (wf_tasks w) = Inr ord\<close>
      have "w' = w\<lparr>wf_status := COMPLETED, updated_at := Some now0, wf_tasks := tstate ?s,
                completed_at := Some now1\<rparr>" "out = Returned (get_workflow_results w')"
        by (auto simp: execute_workflow_def Let_def)
      with \<open>get_execution_order (wf_tasks w) = Inr ord\<close> Some Inr returned show ?thesis by simp
    qed
  qed
qed

text \<open>
  C2. At every point of \<open>execute_workflow\<close> the number of tasks in status Running is at
  most the concurrency bound. A schedule is any interleaving of the coroutines and
  every prefix of a schedule is a schedule, so the state after \<open>sched\<close> is an arbitrary
  state of an arbitrary execution. Task ids are the primary keys of the tasks and no
  task is Running when the execution starts. The statement holds for every
  \<open>can_execute\<close>.
\<close>

theorem running_tasks_bounded:
  assumes "get_execution_order ts = Inr ord"
    and "distinct (map task_id ts)"
    and "\<forall>t \<in> set ts. status t \<noteq> RUNNING"
  shows "running_count (tstate (run_events can sched (init_exec N ts ord))) \<le> N"
  using assms by (rule running_bound)

text \<open>
  C3. If task A depends on task B, A never becomes Running while B is not Completed:
  whenever a step of a coroutine takes A from a status other than Running to Running,
  every task A depends on is Completed in the state before the step.
\<close>

theorem running_requires_completed_dependencies:
  assumes "find_task (tstate s) a = Some ta" and "status ta \<noteq> RUNNING"
    and "find_task (tstate (exec_event can_execute e s)) a = Some ta'" and "status ta' = RUNNING"
    and "b \<in> set (dependencies ta)"
  shows "\<exists>tb. find_task (tstate s) b = Some tb \<and> status tb = COMPLETED"
proof (cases e)
  case (Acquire k)
  with assms show ?thesis by (auto split: if_splits)
next
  case (Release k)
  with assms show ?thesis by (auto split: pc.splits if_splits)
next
  case (Begin k)
  show ?thesis
  proof (cases "k \<in> set (coros s) \<and> pcs s k = Holding")
    case False
    with Begin assms show ?thesis by auto
  next
    case True
    show ?thesis
    proof (cases rule: begin_task_cases[of can_execute "tstate s" k])
      case skip
      with True Begin assms show ?thesis by auto
    next
      case (run t)
      with True Begin assms(3)
      have f: "find_task (update_task k (\<lambda>t. t\<lparr>status := RUNNING\<rparr>) (tstate s)) a = Some ta'" by simp
      show ?thesis
      proof (cases "a = k")
        case True
        with run(1) assms(1) have "t = ta" by simp
        with run(2) assms(5) show ?thesis by (auto dest: can_execute_deps)
      next
        case False
        with f assms(1,2,4) show ?thesis by (simp add: find_task_update_other)
      qed
    qed
  qed
next
  case (Finish k out)
  show ?thesis
  proof (cases "k \<in> set (coros s) \<and> pcs s k = Executing")
    case False
    with Finish assms show ?thesis by auto
  next
    case True
    obtain x f where ft: "finish_task (tstate s) k out = (x, update_task k f (tstate s))"
      and fid: "\<And>t. task_id (f t) = task_id t"
      and fst: "\<And>t. status (f t) \<noteq> RUNNING"
      by (cases rule: finish_task_cases[of out "tstate s" k]) auto
    from True Finish ft assms(3)
    have "find_task (update_task k f (tstate s)) a = Some ta'" by simp
    with assms(1,2,4) fst show ?thesis
      by (auto simp: find_task_update[OF fid] split: if_splits)
  qed
qed

lemma list_all2_update_task:
  assumes "\<And>t. t \<in> set ts \<Longrightarrow> task_id t = k \<Longrightarrow> P t (f t)" "\<And>t. P t t"
  shows "list_all2 P ts (update_task k f ts)"
  using assms(1) by (induction ts) (simp_all add: update_task_def assms(2))

lemma legal_step_refl: "legal_step a a"
  by (simp add: legal_step_def)

lemma exec_event_legal:
  assumes ex: "exec_inv s" and dist: "distinct (map task_id (tstate s))"
  shows "list_all2 (\<lambda>t t'. legal_step (status t) (status t')) (tstate s)
           (tstate (exec_event can_execute e s))"
proof -
  let ?P = "\<lambda>t t'. legal_step (status t) (status t')"
  have same: "list_all2 ?P (tstate s) (tstate s)"
    by (simp add: list_all2_same legal_step_refl)
  show ?thesis
  proof (cases e)
    case (Acquire k)
    with same show ?thesis by simp
  next
    case (Release k)
    with same show ?thesis by (auto split: pc.splits)
  next
    case (Begin k)
    show ?thesis
    proof (cases "k \<in> set (coros s) \<and> pcs s k = Holding")
      case False
      with Begin same show ?thesis by auto
    next
      case True
      show ?thesis
      proof (cases rule: begin_task_cases[of can_execute "tstate s" k])
        case skip
        with True Begin same show ?thesis by simp
      next
        case (run t)
        from find_task_SomeD[OF run(1)] have t: "t \<in> set (tstate s)" "task_id t = k" by simp_all
        have "list_all2 ?P (tstate s) (update_task k (\<lambda>t. t\<lparr>status := RUNNING\<rparr>) (tstate s))"
        proof (rule list_all2_update_task)
          fix u assume u: "u \<in> set (tstate s)" "task_id u = k"
          from distinct_ids_eq[OF dist u(1) t(1)] u(2) t(2) have "u = t" by simp
          with can_execute_pending[OF run(2)]
          show "legal_step (status u) (status (u\<lparr>status := RUNNING\<rparr>))"
            by (simp add: legal_step_def)
        qed (rule legal_step_refl)
        with True Begin run show ?thesis by simp
      qed
    qed
  next
    case (Finish k out)
    show ?thesis
    proof (cases "k \<in> set (coros s) \<and> pcs s k = Executing")
      case False
      with Finish same show ?thesis by auto
    next
      case True
      from ex True have run: "\<And>t. t \<in> set (tstate s) \<Longrightarrow> task_id t = k \<Longrightarrow> status t = RUNNING"
        by (auto simp: exec_inv_def)
      obtain x f where ft: "finish_task (tstate s) k out = (x, update_task k f (tstate s))"
        and fst: "\<And>t. status (f t) = COMPLETED \<or> status (f t) = FAILED"
        by (cases rule: finish_task_cases[of out "tstate s" k]) auto
      have "list_all2 ?P (tstate s) (update_task k f (tstate s))"
      proof (rule list_all2_update_task)
        fix u assume u: "u \<in> set (tstate s)" "task_id u = k"
        from run[OF u] fst[of u] show "legal_step (status u) (status (f u))"
          by (auto simp: legal_step_def)
      qed (rule legal_step_refl)
      with True Finish ft show ?thesis by simp
    qed
  qed
qed

lemma skip_is_silent:
  assumes "find_task ts0 k = Some t0" "\<not> can_execute ts0 t0"
  shows "execute_task can_execute ts0 k out = (None, ts0)"
  using assms by (simp add: execute_task_def begin_task_def)

text \<open>
  C7. The claim: the only transitions are Pending to Running, Running to Completed and
  Running to Failed, and an attempt at another transition fails fast with an error. The
  first half holds at every step of every execution. The second half does not: a task
  that cannot run is skipped, \<open>_execute_task\<close> logs a warning and returns. Amended:
  the only status transitions the engine performs are Pending to Running, Running to
  Completed and Running to Failed; executing a task whose status is not Pending or
  whose dependencies are not all Completed raises nothing and changes nothing.
\<close>

theorem status_transitions:
  assumes "distinct (map task_id ts)"
  shows "list_all2 (\<lambda>t t'. legal_step (status t) (status t'))
           (tstate (run_events can_execute sched (init_exec N ts ord)))
           (tstate (exec_event can_execute e (run_events can_execute sched (init_exec N ts ord))))
         \<and> (find_task ts0 k = Some t0 \<longrightarrow> \<not> can_execute ts0 t0 \<longrightarrow>
              execute_task can_execute ts0 k out = (None, ts0))"
proof -
  let ?s = "run_events can_execute sched (init_exec N ts ord)"
  have "map task_id (tstate ?s) = map task_id (tstate (init_exec N ts ord))"
    by (rule ids_static[OF static_run_events])
  then have d: "distinct (map task_id (tstate ?s))" using assms by (simp add: init_exec_def)
  have ex: "exec_inv ?s"
  proof -
    have "exec_inv s \<Longrightarrow> exec_inv (run_events can_execute es s)" for es s
      by (induction es arbitrary: s) (simp_all add: exec_inv_exec_event)
    from this[OF exec_inv_init] show ?thesis .
  qed
  from exec_event_legal[OF ex d] skip_is_silent show ?thesis by blast
qed

text \<open>
  C4. The claim: when a task fails, every task that transitively depends on it becomes
  Failed too, and the workflow Failed. The engine has no propagation: a dependent of a
  failed task never passes the guard of \<open>_execute_task\<close>. Amended: for every
  execution of a workflow whose tasks start Pending, once a task is Failed every task
  that transitively depends on it is still Pending, and \<open>execute_workflow\<close>, when
  it comes back, raises the exception of a failed task with the workflow Failed and
  the message of that exception as its error.
\<close>

theorem failure_not_propagated:
  assumes "db wid = Some w"
    and "distinct (map task_id (wf_tasks w))"
    and "\<forall>t \<in> set (wf_tasks w). status t = PENDING"
    and "execute_workflow can_execute N now0 now1 db wid sched = (out, db')"
    and "db' wid = Some w'"
    and "ta \<in> set (wf_tasks w')" and "status ta = FAILED"
  shows "(\<forall>tb \<in> set (wf_tasks w'). (task_id tb, task_id ta) \<in> (depends_on (wf_tasks w))\<^sup>+
            \<longrightarrow> status tb = PENDING)
         \<and> (out = Awaiting \<or>
            (\<exists>e. out = Raised e \<and> wf_status w' = FAILED \<and> wf_error w' = Some (str_of_error e)))"
proof -
  have main: "?thesis"
    if ord: "get_execution_order (wf_tasks w) = Inr ord"
      and tw: "wf_tasks w' = tstate (run_events can_execute sched (init_exec N (wf_tasks w) ord))"
      and res: "gather_result (run_events can_execute sched (init_exec N (wf_tasks w) ord)) = Some (Inr ())
                  \<Longrightarrow> False"
        "\<And>e. gather_result (run_events can_execute sched (init_exec N (wf_tasks w) ord)) = Some (Inl e)
                  \<Longrightarrow> out = Raised e \<and> wf_status w' = FAILED \<and> wf_error w' = Some (str_of_error e)"
        "gather_result (run_events can_execute sched (init_exec N (wf_tasks w) ord)) = None
                  \<Longrightarrow> out = Awaiting"
    for ord
  proof -
    let ?i = "init_exec N (wf_tasks w) ord"
    let ?s = "run_events can_execute sched ?i"
    have st: "map (\<lambda>t. (task_id t, dependencies t)) (tstate ?s)
                = map (\<lambda>t. (task_id t, dependencies t)) (wf_tasks w)"
      using static_run_events[of can_execute sched ?i] by (simp add: init_exec_def)
    have d: "distinct (map task_id (tstate ?s))"
      using ids_static[OF st] assms(2) by simp
    have dd: "deps_done_inv ?s"
      by (rule run_events_deps_done[OF exec_inv_init deps_done_inv_init])
         (use assms(2,3) in \<open>simp_all add: init_exec_def\<close>)
    have a: "\<forall>tb \<in> set (wf_tasks w'). (task_id tb, task_id ta) \<in> (depends_on (wf_tasks w))\<^sup>+
            \<longrightarrow> status tb = PENDING"
    proof (intro ballI impI)
      fix tb assume tb: "tb \<in> set (wf_tasks w')" "(task_id tb, task_id ta) \<in> (depends_on (wf_tasks w))\<^sup>+"
      have "(task_id tb, task_id ta) \<in> (depends_on (tstate ?s))\<^sup>+"
        using tb(2) depends_on_static[OF st] by simp
      from dependents_pending[OF dd d _ assms(7) this] assms(6) tb(1) tw
      show "status tb = PENDING" by simp
    qed
    have b: "out = Awaiting \<or>
            (\<exists>e. out = Raised e \<and> wf_status w' = FAILED \<and> wf_error w' = Some (str_of_error e))"
    proof (cases "gather_result ?s")
      case None
      from res(3)[OF None] show ?thesis by simp
    next
      case (Some r)
      show ?thesis
      proof (cases r)
        case (Inl e)
        with Some res(2) show ?thesis by blast
      next
        case (Inr u)
        with Some res(1) show ?thesis by simp
      qed
    qed
    from a b show ?thesis by simp
  qed
  have nofin: "gather_result (run_events can_execute sched (init_exec N (wf_tasks w) ord)) \<noteq> Some (Inr ())"
    if ord: "get_execution_order (wf_tasks w) = Inr ord"
      and tw: "wf_tasks w' = tstate (run_events can_execute sched (init_exec N (wf_tasks w) ord))"
    for ord
  proof
    let ?i = "init_exec N (wf_tasks w) ord"
    let ?s = "run_events can_execute sched ?i"
    assume g: "gather_result ?s = Some (Inr ())"
    have "failed_inv ?i" by (rule failed_inv_init) (use assms(3) in simp)
    from run_events_exec_invs[OF exec_inv_init this]
    have fi: "failed_inv ?s" by simp
    have st: "map (\<lambda>t. (task_id t, dependencies t)) (tstate ?s)
                = map (\<lambda>t. (task_id t, dependencies t)) (wf_tasks w)"
      using static_run_events[of can_execute sched ?i] by (simp add: init_exec_def)
    have "task_id ta \<in> set (map task_id (tstate ?s))" using assms(6) tw by simp
    then have "task_id ta \<in> set (map task_id (wf_tasks w))" using ids_static[OF st] by simp
    with exec_order_later(2)[OF ord] have co: "task_id ta \<in> set (coros ?s)"
      by (auto simp: coros_run_events init_exec_def)
    from g have fe: "first_exc ?s = None" and fin: "list_all (\<lambda>k. is_finished (pcs ?s k)) (coros ?s)"
      by (auto simp: gather_result_def split: option.splits if_splits)
    from fin co have "is_finished (pcs ?s (task_id ta))" by (simp add: list_all_iff)
    moreover from fi assms(6,7) tw have "raised (pcs ?s (task_id ta))"
      by (simp add: failed_inv_def)
    ultimately obtain e where "pcs ?s (task_id ta) = Finished (Some e)"
      by (cases "pcs ?s (task_id ta)" rule: raised.cases) auto
    with fi co have "first_exc ?s \<noteq> None" unfolding failed_inv_def by blast
    with fe show False by simp
  qed
  from assms(1,4,5) show ?thesis
  proof (cases rule: execute_workflow_cases)
    case (order_error e)
    with assms(3,6,7) show ?thesis by auto
  next
    case (awaiting ord)
    show ?thesis by (rule main[OF awaiting(1,4)]) (use awaiting nofin[OF awaiting(1,4)] in auto)
  next
    case (raised ord e)
    show ?thesis by (rule main[OF raised(1,6)]) (use raised nofin[OF raised(1,6)] in auto)
  next
    case (returned ord)
    show ?thesis by (rule main[OF returned(1,5)]) (use returned nofin[OF returned(1,5)] in auto)
  qed
qed


lemma exec_order_two_stage: "get_execution_order [ex_pre, ex_ext] = Inr [ex_ext, ex_pre]"
  by code_simp

theorem running_tasks_bounded_witness:
  "get_execution_order [ex_pre, ex_ext] = Inr [ex_ext, ex_pre]
   \<and> distinct (map task_id [ex_pre, ex_ext])
   \<and> status ex_pre \<noteq> RUNNING \<and> status ex_ext \<noteq> RUNNING
   \<and> running_count (tstate (run_events can_execute [Acquire ''wf_preprocess'', Begin ''wf_preprocess'']
                              (init_exec 1 [ex_pre, ex_ext] [ex_ext, ex_pre]))) \<le> 1"
proof -
  have h2: "distinct (map task_id [ex_pre, ex_ext])" by simp
  have h3: "\<forall>t \<in> set [ex_pre, ex_ext]. status t \<noteq> RUNNING" by simp
  have c: "running_count (tstate (run_events can_execute [Acquire ''wf_preprocess'', Begin ''wf_preprocess'']
                              (init_exec 1 [ex_pre, ex_ext] [ex_ext, ex_pre]))) \<le> 1"
    by (rule running_tasks_bounded[OF exec_order_two_stage h2 h3])
  have s1: "status ex_pre \<noteq> RUNNING" and s2: "status ex_ext \<noteq> RUNNING" by simp_all
  show ?thesis by (intro conjI exec_order_two_stage h2 s1 s2 c)
qed

lemma one_running:
  "running_count (tstate (run_events can_execute [Acquire ''wf_preprocess'', Begin ''wf_preprocess'']
                              (init_exec 1 [ex_pre, ex_ext] [ex_ext, ex_pre]))) = 1"
  by code_simp

theorem running_requires_completed_dependencies_witness:
  "find_task (tstate ex_state) ''wf_extract_text'' = Some ex_ext
   \<and> status ex_ext \<noteq> RUNNING
   \<and> find_task (tstate (exec_event can_execute (Begin ''wf_extract_text'') ex_state)) ''wf_extract_text''
       = Some (ex_ext\<lparr>status := RUNNING\<rparr>)
   \<and> status (ex_ext\<lparr>status := RUNNING\<rparr>) = RUNNING
   \<and> ''wf_preprocess'' \<in> set (dependencies ex_ext)
   \<and> (\<exists>tb. find_task (tstate ex_state) ''wf_preprocess'' = Some tb \<and> status tb = COMPLETED)"
proof -
  have h1: "find_task (tstate ex_state) ''wf_extract_text'' = Some ex_ext"
    by (simp add: find_task_def)
  have h2: "status ex_ext \<noteq> RUNNING" by simp
  have h3: "find_task (tstate (exec_event can_execute (Begin ''wf_extract_text'') ex_state)) ''wf_extract_text''
       = Some (ex_ext\<lparr>status := RUNNING\<rparr>)"
    by (simp add: find_task_def begin_task_def can_execute_def update_task_def)
  have h4: "status (ex_ext\<lparr>status := RUNNING\<rparr>) = RUNNING" by simp
  have h5: "''wf_preprocess'' \<in> set (dependencies ex_ext)" by simp
  from running_requires_completed_dependencies[OF h1 h2 h3 h4 h5] h1 h2 h3 h4 h5
  show ?thesis by blast
qed

text \<open>
  The runs that refute the second half of C7 as stated: \<open>_execute_task\<close> on a Completed
  task, and on a Pending task whose dependency is Pending, raises nothing and leaves
  the tasks as they are.
\<close>

theorem skipped_task_raises_nothing:
  "\<not> can_execute [ex_pre\<lparr>status := COMPLETED\<rparr>] (ex_pre\<lparr>status := COMPLETED\<rparr>)
   \<and> execute_task can_execute [ex_pre\<lparr>status := COMPLETED\<rparr>] ''wf_preprocess'' (Inr PNone)
       = (None, [ex_pre\<lparr>status := COMPLETED\<rparr>])
   \<and> \<not> can_execute [ex_pre, ex_ext] ex_ext
   \<and> execute_task can_execute [ex_pre, ex_ext] ''wf_extract_text'' (Inr PNone)
       = (None, [ex_pre, ex_ext])"
  by (simp add: can_execute_def execute_task_def begin_task_def find_task_def)

theorem status_transitions_witness:
  "distinct (map task_id [ex_pre, ex_ext])
   \<and> list_all2 (\<lambda>t t'. legal_step (status t) (status t'))
       (tstate (run_events can_execute [Acquire ''wf_preprocess''] (init_exec 4 [ex_pre, ex_ext] [ex_ext, ex_pre])))
       (tstate (exec_event can_execute (Begin ''wf_preprocess'')
          (run_events can_execute [Acquire ''wf_preprocess''] (init_exec 4 [ex_pre, ex_ext] [ex_ext, ex_pre]))))
   \<and> find_task [ex_pre\<lparr>status := COMPLETED\<rparr>] ''wf_preprocess'' = Some (ex_pre\<lparr>status := COMPLETED\<rparr>)
   \<and> \<not> can_execute [ex_pre\<lparr>status := COMPLETED\<rparr>] (ex_pre\<lparr>status := COMPLETED\<rparr>)
   \<and> execute_task can_execute [ex_pre\<lparr>status := COMPLETED\<rparr>] ''wf_preprocess'' (Inr PNone)
       = (None, [ex_pre\<lparr>status := COMPLETED\<rparr>])"
proof -
  have h1: "distinct (map task_id [ex_pre, ex_ext])" by simp
  have h2: "find_task [ex_pre\<lparr>status := COMPLETED\<rparr>] ''wf_preprocess'' = Some (ex_pre\<lparr>status := COMPLETED\<rparr>)"
    by (simp add: find_task_def)
  have h3: "\<not> can_execute [ex_pre\<lparr>status := COMPLETED\<rparr>] (ex_pre\<lparr>status := COMPLETED\<rparr>)"
    by (simp add: can_execute_def)
  from status_transitions[OF h1, where sched = "[Acquire ''wf_preprocess'']" and N = 4
         and ord = "[ex_ext, ex_pre]" and e = "Begin ''wf_preprocess''"
         and ?ts0.0 = "[ex_pre\<lparr>status := COMPLETED\<rparr>]" and k = "''wf_preprocess''"
         and ?t0.0 = "ex_pre\<lparr>status := COMPLETED\<rparr>" and out = "Inr PNone"] h1 h2 h3
  show ?thesis by blast
qed

lemma fail_run_outcome:
  "fst (execute_workflow can_execute 4 ''t0'' ''t1'' [''wf'' \<mapsto> ex_wf [ex_pre, ex_ext]] ''wf'' ex_fail_sched)
     = Raised (ExecutorError ''boom'')"
  by code_simp

lemma fail_run_store:
  "snd (execute_workflow can_execute 4 ''t0'' ''t1'' [''wf'' \<mapsto> ex_wf [ex_pre, ex_ext]] ''wf'' ex_fail_sched) ''wf''
     = Some \<lparr>wf_id = ''wf'', document_id = ''doc'', wf_status = FAILED, wf_error = Some ''boom'',
         created_at = None, updated_at = Some ''t1'', completed_at = None,
         wf_tasks = [ex_pre\<lparr>status := FAILED, error := Some ''boom''\<rparr>, ex_ext]\<rparr>"
  by code_simp

text \<open>
  The run that refutes C4 as stated: text extraction depends on preprocessing, the
  coroutines start in the returned order, the executor of preprocessing raises. At the
  end preprocessing is Failed and text extraction is Pending, with no error.
\<close>

theorem failed_dependency_leaves_dependent_pending:
  "fst (execute_workflow can_execute 4 ''t0'' ''t1'' [''wf'' \<mapsto> ex_wf [ex_pre, ex_ext]] ''wf'' ex_fail_sched)
     = Raised (ExecutorError ''boom'')
   \<and> map task_id (wf_tasks (the (snd (execute_workflow can_execute 4 ''t0'' ''t1''
         [''wf'' \<mapsto> ex_wf [ex_pre, ex_ext]] ''wf'' ex_fail_sched) ''wf'')))
       = [''wf_preprocess'', ''wf_extract_text'']
   \<and> map status (wf_tasks (the (snd (execute_workflow can_execute 4 ''t0'' ''t1''
         [''wf'' \<mapsto> ex_wf [ex_pre, ex_ext]] ''wf'' ex_fail_sched) ''wf'')))
       = [FAILED, PENDING]
   \<and> map error (wf_tasks (the (snd (execute_workflow can_execute 4 ''t0'' ''t1''
         [''wf'' \<mapsto> ex_wf [ex_pre, ex_ext]] ''wf'' ex_fail_sched) ''wf'')))
       = [Some ''boom'', None]
   \<and> (''wf_extract_text'', ''wf_preprocess'') \<in> depends_on [ex_pre, ex_ext]"
proof -
  have "(''wf_extract_text'', ''wf_preprocess'') \<in> depends_on [ex_pre, ex_ext]"
    by (simp add: depends_on_def)
  then show ?thesis by (simp add: fail_run_outcome fail_run_store)
qed

theorem failure_not_propagated_witness:
  "[''wf'' \<mapsto> ex_wf [ex_pre, ex_ext]] ''wf'' = Some (ex_wf [ex_pre, ex_ext])
   \<and> distinct (map task_id (wf_tasks (ex_wf [ex_pre, ex_ext])))
   \<and> status ex_pre = PENDING \<and> status ex_ext = PENDING
   \<and> snd (execute_workflow can_execute 4 ''t0'' ''t1'' [''wf'' \<mapsto> ex_wf [ex_pre, ex_ext]] ''wf'' ex_fail_sched) ''wf''
       = Some \<lparr>wf_id = ''wf'', document_id = ''doc'', wf_status = FAILED, wf_error = Some ''boom'',
           created_at = None, updated_at = Some ''t1'', completed_at = None,
           wf_tasks = [ex_pre\<lparr>status := FAILED, error := Some ''boom''\<rparr>, ex_ext]\<rparr>
   \<and> status (ex_pre\<lparr>status := FAILED, error := Some ''boom''\<rparr>) = FAILED
   \<and> (task_id ex_ext, task_id (ex_pre\<lparr>status := FAILED, error := Some ''boom''\<rparr>))
        \<in> (depends_on (wf_tasks (ex_wf [ex_pre, ex_ext])))\<^sup>+
   \<and> status ex_ext = PENDING
   \<and> fst (execute_workflow can_execute 4 ''t0'' ''t1'' [''wf'' \<mapsto> ex_wf [ex_pre, ex_ext]] ''wf'' ex_fail_sched)
       = Raised (ExecutorError ''boom'')"
proof -
  let ?db = "[''wf'' \<mapsto> ex_wf [ex_pre, ex_ext]]"
  let ?r = "execute_workflow can_execute 4 ''t0'' ''t1'' ?db ''wf'' ex_fail_sched"
  let ?ta = "ex_pre\<lparr>status := FAILED, error := Some ''boom''\<rparr>"
  let ?w' = "\<lparr>wf_id = ''wf'', document_id = ''doc'', wf_status = FAILED, wf_error = Some ''boom'',
         created_at = None, updated_at = Some ''t1'', completed_at = None,
         wf_tasks = [?ta, ex_ext]\<rparr>"
  have h1: "?db ''wf'' = Some (ex_wf [ex_pre, ex_ext])" by simp
  have h2: "distinct (map task_id (wf_tasks (ex_wf [ex_pre, ex_ext])))" by simp
  have h3: "\<forall>t \<in> set (wf_tasks (ex_wf [ex_pre, ex_ext])). status t = PENDING" by simp
  have h4: "?r = (Raised (ExecutorError ''boom''), snd ?r)"
    by (rule prod_eqI) (simp_all only: fst_conv snd_conv fail_run_outcome)
  have h5: "snd ?r ''wf'' = Some ?w'" by (rule fail_run_store)
  have h6: "?ta \<in> set (wf_tasks ?w')" by simp
  have h7: "status ?ta = FAILED" by simp
  have c: "\<forall>tb \<in> set (wf_tasks ?w').
         (task_id tb, task_id ?ta) \<in> (depends_on (wf_tasks (ex_wf [ex_pre, ex_ext])))\<^sup>+ \<longrightarrow> status tb = PENDING"
    by (rule conjunct1[OF failure_not_propagated[where db = ?db and wid = "''wf''"
            and w = "ex_wf [ex_pre, ex_ext]" and N = 4 and ?now0.0 = "''t0''" and ?now1.0 = "''t1''"
            and sched = ex_fail_sched and out = "Raised (ExecutorError ''boom'')" and db' = "snd ?r"
            and w' = ?w' and ta = ?ta, OF h1 h2 h3 h4 h5 h6 h7]])
  have m: "ex_ext \<in> set (wf_tasks ?w')" by simp
  have d: "(task_id ex_ext, task_id ?ta) \<in> (depends_on (wf_tasks (ex_wf [ex_pre, ex_ext])))\<^sup>+"
    by (rule r_into_trancl) (simp add: depends_on_def)
  have c1: "status ex_ext = PENDING" by (rule mp[OF bspec[OF c m] d])
  have s1: "status ex_pre = PENDING" by simp
  show ?thesis by (intro conjI h1 h2 s1 c1 h5 h7 d fail_run_outcome)
qed




section \<open>Properties of the validate-results stage\<close>















lemma ex_validation:
  "validate_extraction_results (\<lambda>s. True) ex_fields ex_tables ex_invoice
     = \<lparr>valid = False,
        errors = [''Required field '' @ quoted ''invoice_number'' @ '' is missing or empty'',
                  ''Required field '' @ quoted ''total_amount'' @ '' is missing or empty'',
                  ''Required field '' @ quoted ''vendor_name'' @ '' is missing or empty'',
                  ''Required field '' @ quoted ''customer_name'' @ '' is missing or empty''],
        warnings = [''Field '' @ quoted ''date'' @ '' has invalid date format: 10 May 2023'']\<rparr>"
  by code_simp



end
